theory Spec2Isabelle
  imports Complex_Main
begin

section \<open>JavaScript values used by the CSV parser\<close>

text \<open>
  The development embeds \<^verbatim>\<open>ts/Data/Parsers/CSVDataParser.ts\<close>.
  A JavaScript string is a \<open>string\<close>; its code units are HOL characters, so the
  model covers strings whose code units are below 256. \<open>undefined\<close> is \<open>None\<close>.
  The counters of the loops are integers (\<open>int\<close>); the row and column bounds of the
  options are JavaScript numbers.
\<close>

datatype error = TypeError | Thrown string

text \<open>A JavaScript array that may have holes: an unset index reads as \<open>undefined\<close>.\<close>

type_synonym 'a sparse = "'a option list"

text \<open>\<^verbatim>\<open>xs[r] = v\<close>: an index at or beyond the length extends the array with holes;
  a negative index sets a property and leaves the indexed elements alone.\<close>

definition set_at :: "'a sparse \<Rightarrow> int \<Rightarrow> 'a \<Rightarrow> 'a sparse" where
  "set_at xs r v =
     (if r < 0 then xs
      else if nat r < length xs then xs[nat r := Some v]
      else xs @ replicate (nat r - length xs) None @ [Some v])"

text \<open>\<^verbatim>\<open>xs[r]\<close> on a sparse array.\<close>

definition get_at :: "'a sparse \<Rightarrow> int \<Rightarrow> 'a option" where
  "get_at xs r = (if 0 \<le> r \<and> nat r < length xs then xs ! nat r else None)"

text \<open>\<^verbatim>\<open>s[j]\<close> on a string: \<open>undefined\<close> out of range.\<close>

definition charAt :: "string \<Rightarrow> int \<Rightarrow> char option" where
  "charAt s j = (if 0 \<le> j \<and> nat j < length s then Some (s ! nat j) else None)"

text \<open>Truthiness of an optional string: \<open>undefined\<close> and the empty string are falsy.\<close>

definition truthy :: "string option \<Rightarrow> bool" where
  "truthy v = (case v of None \<Rightarrow> False | Some s \<Rightarrow> s \<noteq> [])"

text \<open>\<^verbatim>\<open>a || b\<close> on optional strings.\<close>

definition js_or :: "string option \<Rightarrow> string option \<Rightarrow> string option" where
  "js_or a b = (if truthy a then a else b)"

text \<open>A JavaScript number: \<open>NaN\<close>, an infinity or a finite number. A finite number
  is a rational (every finite double is one; the model also admits the rationals
  that are not doubles), and \<open>-0\<close> is not told apart from \<open>0\<close>: both are falsy and
  compare alike.\<close>

datatype number = NaN | NegInfinity | Finite rat | PosInfinity

text \<open>An integer as a number.\<close>

abbreviation Num :: "int \<Rightarrow> number" where "Num k \<equiv> Finite (of_int k)"

text \<open>\<^verbatim>\<open>a < b\<close> and \<^verbatim>\<open>a <= b\<close> on numbers: a comparison with \<open>NaN\<close> is false.\<close>

fun num_lt :: "number \<Rightarrow> number \<Rightarrow> bool" where
  "num_lt (Finite a) (Finite b) = (a < b)"
| "num_lt NegInfinity (Finite b) = True"
| "num_lt NegInfinity PosInfinity = True"
| "num_lt (Finite a) PosInfinity = True"
| "num_lt a b = False"

definition num_le :: "number \<Rightarrow> number \<Rightarrow> bool" where
  "num_le a b = (num_lt a b \<or> (a = b \<and> a \<noteq> NaN))"

text \<open>\<^verbatim>\<open>!n\<close> for a number: \<open>NaN\<close> and zero are falsy.\<close>

definition falsy :: "number \<Rightarrow> bool" where
  "falsy n = (n = NaN \<or> n = Finite 0)"

text \<open>The integer that a number is, if it is one: only such a number is an index
  of an array.\<close>

definition asIndex :: "number \<Rightarrow> int option" where
  "asIndex n = (case n of Finite q \<Rightarrow> if of_int \<lfloor>q\<rfloor> = q then Some \<lfloor>q\<rfloor> else None
                | _ \<Rightarrow> None)"

text \<open>\<^verbatim>\<open>a > b\<close> on optional numbers: a comparison with \<open>undefined\<close> is false.\<close>

definition js_gt :: "number option \<Rightarrow> number option \<Rightarrow> bool" where
  "js_gt a b = (case a of None \<Rightarrow> False
                | Some x \<Rightarrow> (case b of None \<Rightarrow> False | Some y \<Rightarrow> num_lt y x))"

text \<open>\<^verbatim>\<open>'' + v\<close>: the text of an optional string.\<close>

definition js_toString :: "string option \<Rightarrow> string" where
  "js_toString v = (case v of None \<Rightarrow> ''undefined'' | Some s \<Rightarrow> s)"

text \<open>\<^verbatim>\<open>token += c\<close> for a character read from a string.\<close>

definition append_char :: "string \<Rightarrow> char option \<Rightarrow> string" where
  "append_char t c = (case c of None \<Rightarrow> t @ ''undefined'' | Some x \<Rightarrow> t @ [x])"

text \<open>\<^verbatim>\<open>c === d\<close> for a character \<open>c\<close> read from a string and an optional string \<open>d\<close>.\<close>

definition char_eq :: "char option \<Rightarrow> string option \<Rightarrow> bool" where
  "char_eq c d = (case c of None \<Rightarrow> d = None | Some x \<Rightarrow> d = Some [x])"

text \<open>The white space that \<^verbatim>\<open>String.prototype.trim\<close> strips, among the code units
  below 256: tab, line feed, vertical tab, form feed, carriage return, space and the
  no-break space.\<close>

definition isWhiteSpace :: "char \<Rightarrow> bool" where
  "isWhiteSpace c = (c = CHR 0x09 \<or> c = CHR 0x0A \<or> c = CHR 0x0B \<or> c = CHR 0x0C
                     \<or> c = CHR 0x0D \<or> c = CHR 0x20 \<or> c = CHR 0xA0)"

definition trim :: "string \<Rightarrow> string" where
  "trim s = rev (dropWhile isWhiteSpace (rev (dropWhile isWhiteSpace s)))"

abbreviation hash :: char where "hash \<equiv> CHR ''#''"
abbreviation dquote :: char where "dquote \<equiv> CHR 0x22"

section \<open>Options and parser state\<close>

text \<open>\<^verbatim>\<open>CSVDataParser.OptionsType\<close>: every option may be absent. The preprocessing
  hook \<^verbatim>\<open>beforeParse\<close> either returns the new text or throws.\<close>

record options =
  csv :: "string option"
  startRow :: "number option"
  endRow :: "number option"
  startColumn :: "number option"
  endColumn :: "number option"
  itemDelimiter :: "string option"
  decimalPoint :: "string option"
  lineDelimiter :: "string option"
  firstRowAsNames :: "bool option"
  beforeParse :: "(string \<Rightarrow> error + string) option"

text \<open>The instance properties of \<^verbatim>\<open>CSVDataParser\<close>; \<open>decimalRegex\<close> holds the source
  text of the regular expression.\<close>

record parser =
  options :: options
  columns :: "string sparse list"
  headers :: "string sparse"
  guessedItemDelimiter :: "string option"
  guessedDecimalPoint :: "string option"
  decimalRegex :: "string option"

section \<open>The row tokenizer: \<^verbatim>\<open>parseCSVRow\<close>\<close>

text \<open>The variables that the closures \<^verbatim>\<open>read\<close> and \<^verbatim>\<open>push\<close> share with the
  scan loop. \<open>cols\<close> is the local \<^verbatim>\<open>columns\<close>, an alias of \<^verbatim>\<open>parser.columns\<close>.\<close>

record row_state =
  token :: string
  actualColumn :: int
  column :: nat
  cols :: "string sparse list"

text \<open>\<^verbatim>\<open>read(j)\<close> sets \<open>c\<close>, \<open>cl\<close> and \<open>cn\<close> from the index alone; the model returns
  the triple \<open>(c, cl, cn)\<close>.\<close>

definition read :: "string \<Rightarrow> int \<Rightarrow> char option \<times> char option \<times> char option" where
  "read columnStr j = (charAt columnStr j, charAt columnStr (j - 1), charAt columnStr (j + 1))"

text \<open>\<^verbatim>\<open>push()\<close>. Writing through \<^verbatim>\<open>columns[column]\<close> when that column does not
  exist would throw a \<open>TypeError\<close>.\<close>

definition push :: "options \<Rightarrow> int \<Rightarrow> row_state \<Rightarrow> error + row_state" where
  "push opts rowNumber st =
     (if js_gt (startColumn opts) (Some (Num (actualColumn st)))
         \<or> js_gt (Some (Num (actualColumn st))) (endColumn opts)
      then Inr (st\<lparr>actualColumn := actualColumn st + 1, token := []\<rparr>)
      else
        (let cs = (if length (cols st) < column st + 1 then cols st @ [[]] else cols st)
         in if column st < length cs
            then Inr (st\<lparr>cols := cs[column st := set_at (cs ! column st) rowNumber (token st)],
                         token := [],
                         column := column st + 1,
                         actualColumn := actualColumn st + 1\<rparr>)
            else Inl TypeError))"

text \<open>The inner \<^verbatim>\<open>while (i < columnStr.length)\<close> of a quoted field, entered after
  \<^verbatim>\<open>read(++i)\<close>. It returns the index it stops at and the token.\<close>

function quoted :: "string \<Rightarrow> nat \<Rightarrow> string \<Rightarrow> nat \<times> string" where
  "quoted columnStr i tok =
     (if i < length columnStr then
        (case read columnStr (int i) of (c, cl, cn) \<Rightarrow>
           if c = Some dquote \<and> cl \<noteq> Some dquote \<and> cn \<noteq> Some dquote then (i, tok)
           else quoted columnStr (i + 1)
                  (if c \<noteq> Some dquote \<or> (c = Some dquote \<and> cl \<noteq> Some dquote)
                   then append_char tok c else tok))
      else (i, tok))"
  by pat_completeness auto
termination
  by (relation "measure (\<lambda>(s, i, t). length s - i)") auto

declare quoted.simps [simp del]

text \<open>The \<^verbatim>\<open>for (; i < columnStr.length; i++)\<close> loop and the final \<^verbatim>\<open>push()\<close>.
  \<open>delim\<close> is the local \<^verbatim>\<open>itemDelimiter\<close>.\<close>

function scanRow :: "options \<Rightarrow> string option \<Rightarrow> int \<Rightarrow> string \<Rightarrow> nat \<Rightarrow> row_state
                      \<Rightarrow> error + row_state" where
  "scanRow opts delim rowNumber columnStr i st =
     (if i < length columnStr then
        (case read columnStr (int i) of (c, cl, cn) \<Rightarrow>
           if c = Some hash then push opts rowNumber st
           else if c = Some dquote then
             (case quoted columnStr (i + 1) (token st) of (i', tok') \<Rightarrow>
                scanRow opts delim rowNumber columnStr (i' + 1) (st\<lparr>token := tok'\<rparr>))
           else if char_eq c delim then
             (case push opts rowNumber st of
                Inl e \<Rightarrow> Inl e
              | Inr st' \<Rightarrow> scanRow opts delim rowNumber columnStr (i + 1) st')
           else scanRow opts delim rowNumber columnStr (i + 1)
                  (st\<lparr>token := append_char (token st) c\<rparr>))
      else push opts rowNumber st)"
  by pat_completeness auto
termination
proof (relation "measure (\<lambda>(opts, delim, r, s, i, st). length s - i)", goal_cases)
  case 1
  show ?case by simp
next
  case (2 opts delim rowNumber columnStr i st c y cl cn i' tok')
  have ge: "j \<le> fst (quoted s j t)" for s j t
  proof (induction s j t rule: quoted.induct)
    case (1 s j t)
    show ?case
    proof (cases "j < length s")
      case False
      then show ?thesis by (simp add: quoted.simps [of s j t])
    next
      case True
      obtain a al an where r: "read s (int j) = (a, al, an)"
        by (cases "read s (int j)") auto
      show ?thesis
      proof (cases "a = Some dquote \<and> al \<noteq> Some dquote \<and> an \<noteq> Some dquote")
        case stop: True
        then show ?thesis using True r by (simp add: quoted.simps [of s j t])
      next
        case go: False
        have "j + 1 \<le> fst (quoted s (j + 1)
                (if a \<noteq> Some dquote \<or> (a = Some dquote \<and> al \<noteq> Some dquote)
                 then append_char t a else t))"
          using "1.IH" [OF True r [symmetric] refl go] .
        moreover have "quoted s j t = quoted s (j + 1)
                (if a \<noteq> Some dquote \<or> (a = Some dquote \<and> al \<noteq> Some dquote)
                 then append_char t a else t)"
          using True r go by (auto simp: quoted.simps [of s j t])
        ultimately show ?thesis by simp
      qed
    qed
  qed
  have "i + 1 \<le> fst (quoted columnStr (i + 1) (token st))" by (rule ge)
  with 2(1,6) show ?case by (cases "quoted columnStr (i + 1) (token st)") auto
next
  case 3
  then show ?case by simp
next
  case 4
  then show ?case by simp
qed

declare scanRow.simps [simp del]

text \<open>\<^verbatim>\<open>parseCSVRow(columnStr, rowNumber)\<close>. The window and the delimiter come from
  \<^verbatim>\<open>parser.options\<close>, the options the parser was constructed with.\<close>

definition parseCSVRow :: "parser \<Rightarrow> string \<Rightarrow> int \<Rightarrow> error + parser" where
  "parseCSVRow p columnStr rowNumber =
     (let delim = js_or (itemDelimiter (options p)) (guessedItemDelimiter p)
      in if length (trim columnStr) = 0 then Inr p
         else if charAt (trim columnStr) 0 = Some hash then Inr p
         else (case scanRow (options p) delim rowNumber columnStr 0
                      \<lparr>token = [], actualColumn = 0, column = 0, cols = columns p\<rparr> of
                 Inl e \<Rightarrow> Inl e
               | Inr st \<Rightarrow> Inr (p\<lparr>columns := cols st\<rparr>)))"

section \<open>The delimiter sniffer: \<^verbatim>\<open>guessDelimiter\<close>\<close>

text \<open>
  The sniffer asks three questions of JavaScript's built-in \<^verbatim>\<open>Date.parse\<close> and
  \<^verbatim>\<open>Number\<close>, which are not part of the repository. They are parameters of the model:
  \<open>dateIsNaN t\<close> is \<^verbatim>\<open>isNaN(Date.parse(t))\<close>, \<open>numberIsNaN t\<close> is
  \<^verbatim>\<open>isNaN(Number(t))\<close> and \<open>numberIsFinite t\<close> is \<^verbatim>\<open>isFinite(Number(t))\<close>.
\<close>

record builtins =
  dateIsNaN :: "string \<Rightarrow> bool"
  numberIsNaN :: "string \<Rightarrow> bool"
  numberIsFinite :: "string \<Rightarrow> bool"

text \<open>The counters of the sniffer: the dictionary \<^verbatim>\<open>potDelimiters\<close> and the global
  counts of periods and commas.\<close>

record sniff =
  potDelimiters :: "char \<rightharpoonup> nat"
  points :: nat
  commas :: nat

text \<open>\<^verbatim>\<open>potDelimiters[k]\<close> for a character read from a string; the key
  \<open>undefined\<close> is not in the dictionary.\<close>

definition pot_lookup :: "(char \<rightharpoonup> nat) \<Rightarrow> char option \<Rightarrow> nat option" where
  "pot_lookup m k = (case k of None \<Rightarrow> None | Some x \<Rightarrow> m x)"

text \<open>\<^verbatim>\<open>potDelimiters[k]++\<close> for a key that is in the dictionary.\<close>

definition pot_incr :: "(char \<rightharpoonup> nat) \<Rightarrow> char option \<Rightarrow> (char \<rightharpoonup> nat)" where
  "pot_incr m k =
     (case k of None \<Rightarrow> m
      | Some x \<Rightarrow> (case m x of None \<Rightarrow> m | Some n \<Rightarrow> m(x \<mapsto> n + 1)))"

definition potDelimiters0 :: "char \<rightharpoonup> nat" where
  "potDelimiters0 = [CHR '','' \<mapsto> 0, CHR '';'' \<mapsto> 0, CHR 0x09 \<mapsto> 0]"

text \<open>The counters when the sniffer starts.\<close>

definition sniff0 :: sniff where
  "sniff0 = \<lparr>potDelimiters = potDelimiters0, points = 0, commas = 0\<rparr>"

text \<open>\<^verbatim>\<open>while (cn === ' ' && j < columnStr.length) { cn = columnStr[++j]; }\<close>\<close>

function skipSpaces :: "string \<Rightarrow> nat \<Rightarrow> char option \<Rightarrow> nat \<times> char option" where
  "skipSpaces columnStr j cn =
     (if cn = Some CHR '' '' \<and> j < length columnStr
      then skipSpaces columnStr (j + 1) (charAt columnStr (int (j + 1)))
      else (j, cn))"
  by pat_completeness auto
termination
  by (relation "measure (\<lambda>(s, j, cn). length s - j)") auto

declare skipSpaces.simps [simp del]

text \<open>One turn of the \<^verbatim>\<open>for (var j ...)\<close> loop for a character that is not \<open>#\<close>:
  the chain of \<^verbatim>\<open>if\<close>s, then the two global counters. It returns the index \<open>j\<close>,
  \<^verbatim>\<open>inStr\<close>, \<^verbatim>\<open>token\<close> and the counters as the turn leaves them.\<close>

definition sniffChar :: "builtins \<Rightarrow> string \<Rightarrow> nat \<Rightarrow> bool \<Rightarrow> string \<Rightarrow> sniff
                          \<Rightarrow> nat \<times> bool \<times> string \<times> sniff" where
  "sniffChar B columnStr j inStr tok g =
     (let c = charAt columnStr (int j);
          cn = charAt columnStr (int j + 1);
          cl = charAt columnStr (int j - 1);
          (j1, inStr1, tok1, g1) =
            (if c = Some dquote then
               (if inStr then
                  (if cl \<noteq> Some dquote \<and> cn \<noteq> Some dquote then
                     (case skipSpaces columnStr j cn of (j', cn') \<Rightarrow>
                        (j', False, tok,
                         if pot_lookup (potDelimiters g) cn' \<noteq> None
                         then g\<lparr>potDelimiters := pot_incr (potDelimiters g) cn'\<rparr>
                         else g))
                   else (j, inStr, tok, g))
                else (j, True, tok, g))
             else if pot_lookup (potDelimiters g) c \<noteq> None then
               (let t = trim tok
                in (j, inStr, [],
                    if \<not> dateIsNaN B t
                    then g\<lparr>potDelimiters := pot_incr (potDelimiters g) c\<rparr>
                    else if numberIsNaN B t \<or> \<not> numberIsFinite B t
                    then g\<lparr>potDelimiters := pot_incr (potDelimiters g) c\<rparr>
                    else g))
             else (j, inStr, append_char tok c, g));
          g2 = (if c = Some CHR '','' then g1\<lparr>commas := commas g1 + 1\<rparr> else g1);
          g3 = (if c = Some CHR ''.'' then g2\<lparr>points := points g2 + 1\<rparr> else g2)
      in (j1, inStr1, tok1, g3))"

text \<open>The \<^verbatim>\<open>for (var j = 0; j < columnStr.length; j++)\<close> loop over one line.\<close>

function sniffLine :: "builtins \<Rightarrow> string \<Rightarrow> nat \<Rightarrow> bool \<Rightarrow> string \<Rightarrow> sniff \<Rightarrow> sniff" where
  "sniffLine B columnStr j inStr tok g =
     (if j < length columnStr then
        (if charAt columnStr (int j) = Some hash then g
         else (case sniffChar B columnStr j inStr tok g of
                 (j', inStr', tok', g') \<Rightarrow> sniffLine B columnStr (j' + 1) inStr' tok' g'))
      else g)"
  by pat_completeness auto
termination
proof (relation "measure (\<lambda>(B, s, j, inStr, tok, g). length s - j)", goal_cases)
  case 1
  show ?case by simp
next
  case prems: (2 B columnStr j inStr tok g)
  have ge: "k \<le> fst (skipSpaces s k cn)" for s k cn
  proof (induction s k cn rule: skipSpaces.induct)
    case (1 s k cn)
    show ?case
    proof (cases "cn = Some CHR '' '' \<and> k < length s")
      case True
      from "1.IH" [OF True] show ?thesis
        unfolding skipSpaces.simps [of s k cn] using True by simp
    next
      case False
      then show ?thesis
        unfolding skipSpaces.simps [of s k cn] by auto
    qed
  qed
  have "j \<le> fst (skipSpaces columnStr j (charAt columnStr (int j + 1)))" by (rule ge)
  then have "j \<le> fst (sniffChar B columnStr j inStr tok g)"
    by (auto simp: sniffChar_def Let_def split: prod.splits if_splits)
  with prems(1,3) show ?case by (cases "sniffChar B columnStr j inStr tok g") auto
qed

declare sniffLine.simps [simp del]

text \<open>The \<^verbatim>\<open>for (let i = 0; i < linesCount; i++)\<close> loop, which stops after line 13.\<close>

function sniffLines :: "builtins \<Rightarrow> string list \<Rightarrow> nat \<Rightarrow> sniff \<Rightarrow> sniff" where
  "sniffLines B lines i g =
     (if i < length lines then
        (if i > 13 then g
         else sniffLines B lines (i + 1) (sniffLine B (lines ! i) 0 False [] g))
      else g)"
  by pat_completeness auto
termination
  by (relation "measure (\<lambda>(B, lines, i, g). length lines - i)") auto

declare sniffLines.simps [simp del]

text \<open>\<^verbatim>\<open>a > b\<close> on two entries of the dictionary.\<close>

definition pot_gt :: "nat option \<Rightarrow> nat option \<Rightarrow> bool" where
  "pot_gt a b = (case a of None \<Rightarrow> False
                 | Some x \<Rightarrow> (case b of None \<Rightarrow> False | Some y \<Rightarrow> x > y))"

text \<open>\<^verbatim>\<open>guessDelimiter(lines)\<close> returns the guess and updates the instance: when the
  configured decimal point is falsy it stores a guessed decimal point and a regular
  expression built from the configured one.\<close>

definition guessDelimiter :: "builtins \<Rightarrow> parser \<Rightarrow> string list \<Rightarrow> string \<times> parser" where
  "guessDelimiter B p lines =
     (let g = sniffLines B lines 0 sniff0;
          semi = potDelimiters g (CHR '';'');
          comma = potDelimiters g (CHR '','');
          guessed = (if pot_gt semi comma then '';''
                     else if pot_gt comma semi then '',''
                     else '','')
      in if \<not> truthy (decimalPoint (options p))
         then (guessed,
               p\<lparr>guessedDecimalPoint := Some (if points g > commas g then ''.'' else '',''),
                  decimalRegex := Some (''^(-?[0-9]+)'' @ js_toString (decimalPoint (options p))
                                        @ ''([0-9]+)$'')\<rparr>)
         else (guessed, p))"

section \<open>Construction and \<^verbatim>\<open>parse\<close>\<close>

text \<open>An option of the second argument, when present, replaces that of the first.\<close>

definition override :: "'a option \<Rightarrow> 'a option \<Rightarrow> 'a option" where
  "override a b = (case b of None \<Rightarrow> a | Some v \<Rightarrow> Some v)"

text \<open>Modelled from the spec: the function \<^verbatim>\<open>merge\<close> of \<^verbatim>\<open>Core/Utilities.js\<close> is not
  among the sources. The spec describes it as options merging with layered defaults,
  where the later options override the earlier ones: an option that is present in
  the second argument wins, an absent one leaves the first argument's value. The
  result is a new value; the arguments are unchanged.\<close>

definition merge :: "options \<Rightarrow> options \<Rightarrow> options" where
  "merge a b =
     \<lparr>csv = override (csv a) (csv b),
      startRow = override (startRow a) (startRow b),
      endRow = override (endRow a) (endRow b),
      startColumn = override (startColumn a) (startColumn b),
      endColumn = override (endColumn a) (endColumn b),
      itemDelimiter = override (itemDelimiter a) (itemDelimiter b),
      decimalPoint = override (decimalPoint a) (decimalPoint b),
      lineDelimiter = override (lineDelimiter a) (lineDelimiter b),
      firstRowAsNames = override (firstRowAsNames a) (firstRowAsNames b),
      beforeParse = override (beforeParse a) (beforeParse b)\<rparr>"

text \<open>\<^verbatim>\<open>CSVDataParser.defaultOptions\<close>. The defaults of the base class,
  \<^verbatim>\<open>DataParser.defaultOptions\<close>, are not among the sources and are a parameter.\<close>

definition defaultOptions :: "options \<Rightarrow> options" where
  "defaultOptions base = base\<lparr>decimalPoint := Some ''.'', lineDelimiter := Some [CHR 0x0A]\<rparr>"

text \<open>The constructor and the initial values of the instance properties.\<close>

definition constructor :: "options \<Rightarrow> options \<Rightarrow> parser" where
  "constructor base opts =
     \<lparr>options = merge (defaultOptions base) opts,
      columns = [],
      headers = [],
      guessedItemDelimiter = None,
      guessedDecimalPoint = None,
      decimalRegex = None\<rparr>"

text \<open>\<^verbatim>\<open>.replace(/\r\n/g, '\n')\<close> and \<^verbatim>\<open>.replace(/\r/g, '\n')\<close>.\<close>

fun replace_crlf :: "string \<Rightarrow> string" where
  "replace_crlf (a # b # cs) =
     (if a = CHR 0x0D \<and> b = CHR 0x0A then CHR 0x0A # replace_crlf cs
      else a # replace_crlf (b # cs))"
| "replace_crlf cs = cs"

definition replace_cr :: "string \<Rightarrow> string" where
  "replace_cr s = map (\<lambda>c. if c = CHR 0x0D then CHR 0x0A else c) s"

text \<open>\<^verbatim>\<open>s.split(sep)\<close> for a non-empty separator: \<open>acc\<close> is the piece being read.\<close>

function split_from :: "string \<Rightarrow> string \<Rightarrow> string \<Rightarrow> string list" where
  "split_from sep acc s =
     (if s = [] then [acc]
      else if sep \<noteq> [] \<and> take (length sep) s = sep
      then acc # split_from sep [] (drop (length sep) s)
      else split_from sep (acc @ [hd s]) (tl s))"
  by pat_completeness auto
termination
  by (relation "measure (\<lambda>(sep, acc, s). length s)") auto

declare split_from.simps [simp del]

text \<open>\<^verbatim>\<open>s.split(sep)\<close>: an undefined separator gives the whole string, an empty one
  the code units.\<close>

definition js_split :: "string \<Rightarrow> string option \<Rightarrow> string list" where
  "js_split s sep =
     (case sep of
        None \<Rightarrow> [s]
      | Some d \<Rightarrow> if d = [] then map (\<lambda>c. [c]) s else split_from d [] s)"

text \<open>The lines of the text:
  \<^verbatim>\<open>csv.replace(/\r\n/g, '\n').replace(/\r/g, '\n').split(lineDelimiter)\<close>.\<close>

definition splitLines :: "string \<Rightarrow> string option \<Rightarrow> string list" where
  "splitLines t sep = js_split (replace_cr (replace_crlf t)) sep"

text \<open>\<^verbatim>\<open>lines[rowIt]\<close>\<close>

definition lineAt :: "string list \<Rightarrow> int \<Rightarrow> string option" where
  "lineAt lines k = (if 0 \<le> k \<and> nat k < length lines then Some (lines ! nat k) else None)"

text \<open>\<^verbatim>\<open>if (!startRow || startRow < 0) { startRow = 0; }\<close>\<close>

definition clampStartRow :: "number option \<Rightarrow> number" where
  "clampStartRow sr =
     (case sr of None \<Rightarrow> Num 0
      | Some n \<Rightarrow> if falsy n \<or> num_lt n (Num 0) then Num 0 else n)"

text \<open>\<^verbatim>\<open>if (!endRow || endRow >= lines.length) { endRow = lines.length - 1; }\<close>\<close>

definition clampEndRow :: "number option \<Rightarrow> string list \<Rightarrow> number" where
  "clampEndRow er lines =
     (case er of
        None \<Rightarrow> Num (int (length lines) - 1)
      | Some n \<Rightarrow> if falsy n \<or> num_le (Num (int (length lines))) n
                  then Num (int (length lines) - 1) else n)"

text \<open>The loop \<^verbatim>\<open>for (...; rowIt <= endRow; rowIt++)\<close> while \<open>rowIt\<close> is an integer,
  with the end row rounded down. Reading \<^verbatim>\<open>lines[rowIt][0]\<close> of a line that does
  not exist throws a \<open>TypeError\<close>.\<close>

function parseRows :: "string list \<Rightarrow> int \<Rightarrow> int \<Rightarrow> int \<Rightarrow> int \<Rightarrow> parser \<Rightarrow> error + parser" where
  "parseRows lines sRow eRow rowIt offset p =
     (if rowIt \<le> eRow then
        (case lineAt lines rowIt of
           None \<Rightarrow> Inl TypeError
         | Some l \<Rightarrow>
             if charAt l 0 = Some hash
             then parseRows lines sRow eRow (rowIt + 1) (offset + 1) p
             else (case parseCSVRow p l (rowIt - sRow - offset) of
                     Inl e \<Rightarrow> Inl e
                   | Inr p' \<Rightarrow> parseRows lines sRow eRow (rowIt + 1) offset p'))
      else Inr p)"
  by pat_completeness auto
termination
  by (relation "measure (\<lambda>(lines, sRow, eRow, rowIt, offset, p). nat (eRow + 1 - rowIt))") auto

declare parseRows.simps [simp del]

text \<open>The loop from its start, \<^verbatim>\<open>rowIt = startRow\<close>, for bounds that are any
  numbers. When the test \<^verbatim>\<open>rowIt <= endRow\<close> holds, the body reads
  \<^verbatim>\<open>lines[rowIt][0]\<close>: for a start row that is not an integer \<^verbatim>\<open>lines[rowIt]\<close> is
  \<open>undefined\<close> and the read throws a \<open>TypeError\<close>. From an integer the loop stays on
  integers, and an integer is at most the end row when it is at most the end row
  rounded down. Under an infinite end row the loop goes on until a line is
  missing (\<open>rowLoop_unbounded\<close> below).\<close>

definition rowLoop :: "string list \<Rightarrow> number \<Rightarrow> number \<Rightarrow> parser \<Rightarrow> error + parser" where
  "rowLoop lines sRow eRow p =
     (if num_le sRow eRow then
        (case asIndex sRow of
           None \<Rightarrow> Inl TypeError
         | Some k \<Rightarrow>
             parseRows lines k
               (case eRow of Finite e \<Rightarrow> \<lfloor>e\<rfloor> | _ \<Rightarrow> max k (int (length lines))) k 0 p)
      else Inr p)"

text \<open>The header loop \<^verbatim>\<open>for (i = 0; i < colsCount; i++)\<close> with
  \<^verbatim>\<open>parser.headers[i] = '' + parser.columns[i][0]\<close>. Reading index 0 of a column that
  does not exist would throw a \<open>TypeError\<close>.\<close>

function promote :: "string sparse list \<Rightarrow> nat \<Rightarrow> nat \<Rightarrow> string sparse
                      \<Rightarrow> error + string sparse" where
  "promote cs colsCount i hs =
     (if i < colsCount
      then (if i < length cs
            then promote cs colsCount (i + 1)
                   (set_at hs (int i) (js_toString (get_at (cs ! i) 0)))
            else Inl TypeError)
      else Inr hs)"
  by pat_completeness auto
termination
  by (relation "measure (\<lambda>(cs, colsCount, i, hs). colsCount - i)") auto

declare promote.simps [simp del]

text \<open>The body of \<^verbatim>\<open>if (csv) { ... }\<close>: split the text into lines, clamp the row
  window, sniff the delimiter when the merged options have none, and tokenize the rows.
  The result is what was thrown, if anything, and the instance. The loop throws at
  its first row or not at all (\<open>rowLoop_clamped\<close> below), so a throw leaves the
  instance as the sniffer left it.\<close>

definition tokenize :: "builtins \<Rightarrow> options \<Rightarrow> string \<Rightarrow> parser \<Rightarrow> error option \<times> parser" where
  "tokenize B parserOptions text p =
     (let lines = splitLines text (lineDelimiter parserOptions);
          sRow = clampStartRow (startRow parserOptions);
          eRow = clampEndRow (endRow parserOptions) lines;
          p1 = (if \<not> truthy (itemDelimiter parserOptions)
                then (case guessDelimiter B p lines of
                        (guessed, p') \<Rightarrow> p'\<lparr>guessedItemDelimiter := Some guessed\<rparr>)
                else p)
      in case rowLoop lines sRow eRow p1 of
           Inl e \<Rightarrow> (Some e, p1)
         | Inr p2 \<Rightarrow> (None, p2))"

text \<open>\<^verbatim>\<open>if (csv && beforeParse) { csv = beforeParse(csv); }\<close>: the hook is called
  unwrapped, so what it throws leaves \<^verbatim>\<open>parse\<close>.\<close>

definition runHook :: "options \<Rightarrow> error + string option" where
  "runHook parserOptions =
     (case csv parserOptions of
        None \<Rightarrow> Inr None
      | Some text \<Rightarrow>
          if text = [] then Inr (Some text)
          else (case beforeParse parserOptions of
                  None \<Rightarrow> Inr (Some text)
                | Some hook \<Rightarrow> (case hook text of Inl e \<Rightarrow> Inl e | Inr text' \<Rightarrow> Inr (Some text'))))"

text \<open>\<^verbatim>\<open>parse(options)\<close>. The result is what was thrown, if anything, and the instance
  as the call leaves it. The two \<^verbatim>\<open>emit\<close> calls notify observers outside the
  sources and are left out.\<close>

definition parse :: "builtins \<Rightarrow> parser \<Rightarrow> options \<Rightarrow> error option \<times> parser" where
  "parse B p opts =
     (let parserOptions = merge (options p) opts;
          p0 = p\<lparr>columns := []\<rparr>
      in case runHook parserOptions of
           Inl e \<Rightarrow> (Some e, p0)
         | Inr text \<Rightarrow>
             (case (case text of
                      None \<Rightarrow> (None, p0)
                    | Some t \<Rightarrow> if t = [] then (None, p0) else tokenize B parserOptions t p0) of
                (Some e, p1) \<Rightarrow> (Some e, p1)
              | (None, p1) \<Rightarrow>
                  if firstRowAsNames parserOptions = Some True
                  then (case promote (columns p1) (length (columns p1)) 0 (headers p1) of
                          Inl e \<Rightarrow> (Some e, p1)
                        | Inr hs \<Rightarrow> (None, p1\<lparr>headers := hs\<rparr>))
                  else (None, p1)))"

section \<open>Values used in the examples\<close>

text \<open>Options with every entry absent.\<close>

definition noOptions :: options where
  "noOptions =
     \<lparr>csv = None, startRow = None, endRow = None, startColumn = None, endColumn = None,
      itemDelimiter = None, decimalPoint = None, lineDelimiter = None,
      firstRowAsNames = None, beforeParse = None\<rparr>"

text \<open>A value for the defaults of the base class: the whole row and column range
  (the end is the largest finite number of JavaScript) and the first row as names.\<close>

definition sampleDefaults :: options where
  "sampleDefaults =
     noOptions\<lparr>startRow := Some (Num 0), endRow := Some (Num (2 ^ 1024 - 2 ^ 971)),
               startColumn := Some (Num 0), endColumn := Some (Num (2 ^ 1024 - 2 ^ 971)),
               firstRowAsNames := Some True\<rparr>"

text \<open>Built-ins for texts that are neither dates nor numbers, such as \<open>a\<close> or \<open>b\<close>.\<close>

definition sampleBuiltins :: builtins where
  "sampleBuiltins =
     \<lparr>dateIsNaN = (\<lambda>t. True), numberIsNaN = (\<lambda>t. True), numberIsFinite = (\<lambda>t. False)\<rparr>"

text \<open>Built-ins for which the text \<open>1\<close> is a finite number and every other text
  is not a number; no text is a date.\<close>

definition oneBuiltins :: builtins where
  "oneBuiltins =
     \<lparr>dateIsNaN = (\<lambda>t. True), numberIsNaN = (\<lambda>t. t \<noteq> ''1''),
      numberIsFinite = (\<lambda>t. t = ''1'')\<rparr>"

text \<open>\<^verbatim>\<open>new CSVDataParser({ itemDelimiter: ',' })\<close> and \<^verbatim>\<open>new CSVDataParser()\<close>.\<close>

definition commaParser :: parser where
  "commaParser = constructor sampleDefaults (noOptions\<lparr>itemDelimiter := Some '',''\<rparr>)"

definition plainParser :: parser where
  "plainParser = constructor sampleDefaults noOptions"

text \<open>\<^verbatim>\<open>new CSVDataParser({ itemDelimiter: ',', startColumn: 1, endColumn: 1 })\<close>\<close>

definition windowParser :: parser where
  "windowParser =
     constructor sampleDefaults
       (noOptions\<lparr>itemDelimiter := Some '','', startColumn := Some (Num 1),
                  endColumn := Some (Num 1)\<rparr>)"

text \<open>\<^verbatim>\<open>new CSVDataParser({ decimalPoint: '' })\<close>: no decimal point is configured.\<close>

definition noDecimalParser :: parser where
  "noDecimalParser = constructor sampleDefaults (noOptions\<lparr>decimalPoint := Some []\<rparr>)"

text \<open>A line of three fields separated by tabs.\<close>

definition tabLine :: string where
  "tabLine = ''a'' @ [CHR 0x09] @ ''b'' @ [CHR 0x09] @ ''c''"

text \<open>Five lines: a row, a comment line, a row, a blank line, a row.\<close>

definition sampleLines :: "string list" where
  "sampleLines = [''a'', ''#c'', ''b'', ''  '', ''d'']"

text \<open>A preprocessing hook that throws, and options that install it.\<close>

definition failingHook :: "string \<Rightarrow> error + string" where
  "failingHook t = Inl (Thrown ''stop'')"

definition hookOptions :: options where
  "hookOptions = noOptions\<lparr>csv := Some ''a,b'', beforeParse := Some failingHook\<rparr>"

section \<open>Notions used in the statements\<close>

text \<open>\<^verbatim>\<open>columns[c][r]\<close>, \<open>undefined\<close> where the column or the row is unset.\<close>

definition cellAt :: "string sparse list \<Rightarrow> nat \<Rightarrow> int \<Rightarrow> string option" where
  "cellAt cs c r = (if c < length cs then get_at (cs ! c) r else None)"

text \<open>Line \<open>k\<close> exists and its first character is \<open>#\<close>: the test of the row loop.\<close>

definition commentLine :: "string list \<Rightarrow> int \<Rightarrow> bool" where
  "commentLine lines k =
     (case lineAt lines k of None \<Rightarrow> False | Some l \<Rightarrow> charAt l 0 = Some hash)"

text \<open>The number of such lines with index from \<open>a\<close> up to but not including \<open>b\<close>.\<close>

definition commentsBetween :: "string list \<Rightarrow> int \<Rightarrow> int \<Rightarrow> int" where
  "commentsBetween lines a b = int (length (filter (commentLine lines) [a..b - 1]))"

text \<open>The lines without line \<open>k\<close>.\<close>

definition removeLine :: "string list \<Rightarrow> int \<Rightarrow> string list" where
  "removeLine lines k = take (nat k) lines @ drop (nat k + 1) lines"

text \<open>Every column is at most \<open>n\<close> long: the rows from \<open>n\<close> on are unset.\<close>

definition rowsBelow :: "string sparse list \<Rightarrow> int \<Rightarrow> bool" where
  "rowsBelow cs n = list_all (\<lambda>col. int (length col) \<le> n) cs"

text \<open>The three characters that the sniffer counts as possible delimiters.\<close>

definition candidate :: "char \<Rightarrow> bool" where
  "candidate c = (c = CHR '','' \<or> c = CHR '';'' \<or> c = CHR 0x09)"

text \<open>The text between index \<open>j\<close> of a line and the last comma, semicolon or tab
  before it (or the start of the line).\<close>

definition fieldBefore :: "string \<Rightarrow> nat \<Rightarrow> string" where
  "fieldBefore l j = rev (takeWhile (\<lambda>c. \<not> candidate c) (rev (take j l)))"

text \<open>A text that speaks for a delimiter after it: it is a date, or it is not a finite
  number.\<close>

definition evidence :: "builtins \<Rightarrow> string \<Rightarrow> bool" where
  "evidence B t = (\<not> dateIsNaN B t \<or> numberIsNaN B t \<or> \<not> numberIsFinite B t)"

text \<open>The occurrences of the character \<open>d\<close> in a line, before its first \<open>#\<close>, that
  follow such a text.\<close>

definition counted :: "builtins \<Rightarrow> char \<Rightarrow> string \<Rightarrow> nat" where
  "counted B d l =
     length (filter (\<lambda>j. l ! j = d \<and> evidence B (trim (fieldBefore l j)))
               [0..<length (takeWhile (\<lambda>c. c \<noteq> hash) l)])"

text \<open>A character of an unquoted field: neither \<open>#\<close> nor a quote nor the delimiter.\<close>

definition plainChar :: "string option \<Rightarrow> char \<Rightarrow> bool" where
  "plainChar d c = (c \<noteq> hash \<and> c \<noteq> dquote \<and> \<not> char_eq (Some c) d)"

section \<open>Facts about the tokenizer\<close>

lemma charAt_nat: "charAt s (int i) = (if i < length s then Some (s ! i) else None)"
  by (simp add: charAt_def)

lemma scanRow_end: "\<not> i < length s \<Longrightarrow> scanRow opts d r s i st = push opts r st"
  by (rule trans [OF scanRow.simps]) simp

lemma scanRow_hash:
  "i < length s \<Longrightarrow> s ! i = hash \<Longrightarrow> scanRow opts d r s i st = push opts r st"
  by (rule trans [OF scanRow.simps]) (simp add: read_def charAt_nat)

lemma scanRow_quote:
  "i < length s \<Longrightarrow> s ! i = dquote \<Longrightarrow>
   scanRow opts d r s i st =
     (case quoted s (i + 1) (token st) of
        (i', tok') \<Rightarrow> scanRow opts d r s (i' + 1) (st\<lparr>token := tok'\<rparr>))"
  by (rule trans [OF scanRow.simps]) (simp add: read_def charAt_nat)

lemma scanRow_delim:
  "i < length s \<Longrightarrow> s ! i \<noteq> hash \<Longrightarrow> s ! i \<noteq> dquote \<Longrightarrow> char_eq (Some (s ! i)) d \<Longrightarrow>
   scanRow opts d r s i st =
     (case push opts r st of
        Inl e \<Rightarrow> Inl e
      | Inr st' \<Rightarrow> scanRow opts d r s (i + 1) st')"
  by (rule trans [OF scanRow.simps]) (simp add: read_def charAt_nat)

lemma scanRow_plain:
  "i < length s \<Longrightarrow> s ! i \<noteq> hash \<Longrightarrow> s ! i \<noteq> dquote \<Longrightarrow> \<not> char_eq (Some (s ! i)) d \<Longrightarrow>
   scanRow opts d r s i st = scanRow opts d r s (i + 1) (st\<lparr>token := token st @ [s ! i]\<rparr>)"
  by (rule trans [OF scanRow.simps]) (simp add: read_def charAt_nat append_char_def)

lemma scanRow_field:
  "list_all (plainChar d) f \<Longrightarrow>
   scanRow opts d r (pre @ f @ rest) (length pre) st =
   scanRow opts d r (pre @ f @ rest) (length pre + length f) (st\<lparr>token := token st @ f\<rparr>)"
proof (induction f arbitrary: pre st)
  case Nil
  then show ?case by simp
next
  case (Cons c f)
  from Cons.prems have pc: "plainChar d c" and f: "list_all (plainChar d) f"
    by simp_all
  from pc have c: "c \<noteq> hash" "c \<noteq> dquote" "\<not> char_eq (Some c) d"
    by (simp_all add: plainChar_def)
  have "scanRow opts d r (pre @ (c # f) @ rest) (length pre) st =
        scanRow opts d r (pre @ (c # f) @ rest) (length pre + 1) (st\<lparr>token := token st @ [c]\<rparr>)"
    using c scanRow_plain [of "length pre" "pre @ (c # f) @ rest" d opts r st] by simp
  also have "\<dots> = scanRow opts d r ((pre @ [c]) @ f @ rest) (length (pre @ [c])) (st\<lparr>token := token st @ [c]\<rparr>)"
    by simp
  also have "\<dots> = scanRow opts d r ((pre @ [c]) @ f @ rest) (length (pre @ [c]) + length f)
                      (st\<lparr>token := token st @ [c], token := token (st\<lparr>token := token st @ [c]\<rparr>) @ f\<rparr>)"
    using Cons.IH [OF f, of "pre @ [c]" "st\<lparr>token := token st @ [c]\<rparr>"] by simp
  finally show ?case by simp
qed

lemma push_ok:
  "column st \<le> length (cols st) \<Longrightarrow>
   \<exists>st'. push opts r st = Inr st' \<and> column st' \<le> length (cols st')"
  by (auto simp: push_def Let_def)

lemma scanRow_ok:
  "column st \<le> length (cols st) \<Longrightarrow>
   \<exists>st'. scanRow opts d r s i st = Inr st' \<and> column st' \<le> length (cols st')"
proof (induction opts d r s i st rule: scanRow.induct)
  case (1 opts d r s i st)
  show ?case
  proof (cases "i < length s")
    case False
    then show ?thesis using push_ok [OF "1.prems"] by (simp add: scanRow_end)
  next
    case True
    obtain c where c: "s ! i = c" by simp
    obtain cl cn where rd: "read s (int i) = (Some c, cl, cn)"
      using True c by (simp add: read_def charAt_nat)
    consider (hash) "c = hash" | (quote) "c = dquote" | (delim) "c \<noteq> hash" "c \<noteq> dquote" "char_eq (Some c) d"
      | (plain) "c \<noteq> hash" "c \<noteq> dquote" "\<not> char_eq (Some c) d"
      by blast
    then show ?thesis
    proof cases
      case hash
      then show ?thesis using push_ok [OF "1.prems"] True c by (simp add: scanRow_hash)
    next
      case quote
      obtain i' tok' where q: "quoted s (i + 1) (token st) = (i', tok')"
        by (cases "quoted s (i + 1) (token st)") auto
      have ne: "Some c \<noteq> Some hash" using quote by simp
      have "\<exists>st'. scanRow opts d r s (i' + 1) (st\<lparr>token := tok'\<rparr>) = Inr st' \<and> column st' \<le> length (cols st')"
        using "1.IH"(1) [OF True rd [symmetric] refl ne _ q [symmetric]] quote "1.prems" by simp
      then show ?thesis using True c quote q by (simp add: scanRow_quote)
    next
      case delim
      obtain st1 where p: "push opts r st = Inr st1" and inv: "column st1 \<le> length (cols st1)"
        using push_ok [OF "1.prems"] by blast
      have ne: "Some c \<noteq> Some hash" "Some c \<noteq> Some dquote" using delim by simp_all
      have "\<exists>st'. scanRow opts d r s (i + 1) st1 = Inr st' \<and> column st' \<le> length (cols st')"
        using "1.IH"(2) [OF True rd [symmetric] refl ne delim(3) p inv] .
      then show ?thesis using True c delim p by (simp add: scanRow_delim)
    next
      case plain
      have ne: "Some c \<noteq> Some hash" "Some c \<noteq> Some dquote" using plain by simp_all
      have "\<exists>st'. scanRow opts d r s (i + 1) (st\<lparr>token := append_char (token st) (Some c)\<rparr>) = Inr st'
              \<and> column st' \<le> length (cols st')"
        using "1.IH"(3) [OF True rd [symmetric] refl ne plain(3)] "1.prems" by simp
      then show ?thesis using True c plain by (simp add: scanRow_plain append_char_def)
    qed
  qed
qed

lemma parseCSVRow_ok: "\<exists>p'. parseCSVRow p l r = Inr p'"
proof -
  let ?st = "\<lparr>token = [], actualColumn = 0, column = 0, cols = columns p\<rparr>"
  have "column ?st \<le> length (cols ?st)" by simp
  from scanRow_ok [OF this]
  obtain st' where "scanRow (options p) (js_or (itemDelimiter (options p)) (guessedItemDelimiter p))
                      r l 0 ?st = Inr st'"
    by blast
  then show ?thesis
    by (simp add: parseCSVRow_def Let_def)
qed


lemma plainChar_no_hash: "list_all (plainChar d) f \<Longrightarrow> hash \<notin> set f"
  by (auto simp: list_all_iff plainChar_def)

lemma trim_keeps_head:
  assumes "dropWhile isWhiteSpace s = x # xs"
  shows "\<exists>ys. trim s = x # ys"
proof -
  have nx: "\<not> isWhiteSpace x" using assms hd_dropWhile [of isWhiteSpace s] by auto
  have "dropWhile isWhiteSpace (rev xs @ [x]) = dropWhile isWhiteSpace (rev xs) @ [x] \<or>
        dropWhile isWhiteSpace (rev xs @ [x]) = [x]"
    using nx by (simp add: dropWhile_append)
  then obtain zs where "dropWhile isWhiteSpace (rev (x # xs)) = zs @ [x]"
    by auto
  then show ?thesis by (simp add: trim_def assms)
qed

lemma not_skipped:
  assumes v: "list_all (plainChar d) v" and c: "c \<noteq> hash" "\<not> isWhiteSpace c"
  shows "trim (v @ c # rest) \<noteq> [] \<and> charAt (trim (v @ c # rest)) 0 \<noteq> Some hash"
proof -
  obtain x xs where dw: "dropWhile isWhiteSpace (v @ c # rest) = x # xs" and x: "x \<noteq> hash"
  proof (cases "\<forall>a\<in>set v. isWhiteSpace a")
    case True
    then have "dropWhile isWhiteSpace (v @ c # rest) = c # rest"
      using c by (simp add: dropWhile_append)
    with c that show ?thesis by blast
  next
    case False
    then have ne: "dropWhile isWhiteSpace v \<noteq> []" by (simp add: dropWhile_eq_Nil_conv)
    then obtain y ys where y: "dropWhile isWhiteSpace v = y # ys" by (cases "dropWhile isWhiteSpace v") auto
    then have "y \<in> set v" using set_dropWhileD [of y isWhiteSpace v] by simp
    then have "y \<noteq> hash" using plainChar_no_hash [OF v] by auto
    moreover have "dropWhile isWhiteSpace (v @ c # rest) = y # ys @ c # rest"
      using False y by (auto simp: dropWhile_append)
    ultimately show ?thesis using that by blast
  qed
  from trim_keeps_head [OF dw] obtain ys where "trim (v @ c # rest) = x # ys" by blast
  then show ?thesis using x by (simp add: charAt_def)
qed

section \<open>Facts about the row loop and \<^verbatim>\<open>parse\<close>\<close>

lemma parseRows_done: "\<not> rowIt \<le> eRow \<Longrightarrow> parseRows lines sRow eRow rowIt offset p = Inr p"
  by (rule trans [OF parseRows.simps]) simp

lemma parseRows_comment:
  "rowIt \<le> eRow \<Longrightarrow> lineAt lines rowIt = Some l \<Longrightarrow> charAt l 0 = Some hash \<Longrightarrow>
   parseRows lines sRow eRow rowIt offset p = parseRows lines sRow eRow (rowIt + 1) (offset + 1) p"
  by (rule trans [OF parseRows.simps]) simp

lemma parseRows_row:
  "rowIt \<le> eRow \<Longrightarrow> lineAt lines rowIt = Some l \<Longrightarrow> charAt l 0 \<noteq> Some hash \<Longrightarrow>
   parseRows lines sRow eRow rowIt offset p =
     (case parseCSVRow p l (rowIt - sRow - offset) of
        Inl e \<Rightarrow> Inl e
      | Inr p' \<Rightarrow> parseRows lines sRow eRow (rowIt + 1) offset p')"
  by (rule trans [OF parseRows.simps]) simp

lemma parseRows_ok:
  "0 \<le> rowIt \<Longrightarrow> eRow < int (length lines) \<Longrightarrow>
   \<exists>p'. parseRows lines sRow eRow rowIt offset p = Inr p'"
proof (induction lines sRow eRow rowIt offset p rule: parseRows.induct)
  case (1 lines sRow eRow rowIt offset p)
  show ?case
  proof (cases "rowIt \<le> eRow")
    case False
    then show ?thesis by (simp add: parseRows_done)
  next
    case True
    with "1.prems" have "0 \<le> rowIt \<and> nat rowIt < length lines" by auto
    then obtain l where l: "lineAt lines rowIt = Some l"
      by (simp add: lineAt_def)
    show ?thesis
    proof (cases "charAt l 0 = Some hash")
      case c: True
      from "1.IH"(1) [OF True l c] "1.prems" show ?thesis
        by (simp add: parseRows_comment [OF True l c])
    next
      case c: False
      obtain p1 where p1: "parseCSVRow p l (rowIt - sRow - offset) = Inr p1"
        using parseCSVRow_ok by blast
      from "1.IH"(2) [OF True l c p1] "1.prems" show ?thesis
        by (simp add: parseRows_row [OF True l c] p1)
    qed
  qed
qed

text \<open>With the bounds that \<^verbatim>\<open>parse\<close> computes, the row loop throws exactly when the
  start row is at most the end row and is not an integer; it throws at its first
  row, before any line is tokenized.\<close>

lemma rowLoop_clamped:
  "rowLoop lines (clampStartRow sr) (clampEndRow er lines) p = Inl e \<longleftrightarrow>
     e = TypeError \<and> num_le (clampStartRow sr) (clampEndRow er lines)
     \<and> asIndex (clampStartRow sr) = None"
proof (cases "num_le (clampStartRow sr) (clampEndRow er lines)")
  case False
  then show ?thesis by (simp add: rowLoop_def)
next
  case le: True
  show ?thesis
  proof (cases "asIndex (clampStartRow sr)")
    case None
    with le show ?thesis by (auto simp: rowLoop_def)
  next
    case (Some k)
    have k0: "0 \<le> k"
      using Some
      by (auto simp: asIndex_def clampStartRow_def falsy_def
               split: option.splits number.splits if_splits)
    let ?e = "case clampEndRow er lines of Finite e \<Rightarrow> \<lfloor>e\<rfloor> | _ \<Rightarrow> max k (int (length lines))"
    have fin: "\<exists>q. clampStartRow sr = Finite q"
      using Some by (auto simp: asIndex_def split: number.splits)
    have "\<exists>e. clampEndRow er lines = Finite e \<and> \<lfloor>e\<rfloor> < int (length lines)"
    proof (cases er)
      case None
      then show ?thesis by (simp add: clampEndRow_def)
    next
      case (Some n)
      show ?thesis
      proof (cases "falsy n \<or> num_le (Num (int (length lines))) n")
        case True
        with Some show ?thesis by (simp add: clampEndRow_def)
      next
        case False
        with Some have c: "clampEndRow er lines = n" by (simp add: clampEndRow_def)
        with le fin False obtain e where e: "n = Finite e"
          by (cases n) (auto simp: num_le_def falsy_def)
        from False e have "e < of_int (int (length lines))"
          by (auto simp: num_le_def)
        then have "\<lfloor>e\<rfloor> < int (length lines)"
          by (simp add: floor_less_iff)
        with c e show ?thesis by simp
      qed
    qed
    then have lt: "?e < int (length lines)" by auto
    obtain p' where "parseRows lines k ?e k 0 p = Inr p'"
      using parseRows_ok [OF k0 lt] by blast
    with le Some show ?thesis by (simp add: rowLoop_def)
  qed
qed

text \<open>Under an infinite end row the loop runs on until a line is missing, and
  throws there.\<close>

lemma parseRows_overrun:
  "int (length lines) \<le> eRow \<Longrightarrow> rowIt \<le> eRow \<Longrightarrow>
   parseRows lines sRow eRow rowIt offset p = Inl TypeError"
proof (induction lines sRow eRow rowIt offset p rule: parseRows.induct)
  case (1 lines sRow eRow rowIt offset p)
  show ?case
  proof (cases "lineAt lines rowIt")
    case None
    with "1.prems"(2) show ?thesis by (simp add: parseRows.simps [of lines sRow eRow rowIt offset p])
  next
    case (Some l)
    then have "rowIt + 1 \<le> eRow"
      using "1.prems"(1) by (auto simp: lineAt_def split: if_splits)
    note nx = this
    show ?thesis
    proof (cases "charAt l 0 = Some hash")
      case c: True
      from "1.IH"(1) [OF "1.prems"(2) Some c "1.prems"(1) nx] show ?thesis
        by (simp add: parseRows_comment [OF "1.prems"(2) Some c])
    next
      case c: False
      obtain p1 where p1: "parseCSVRow p l (rowIt - sRow - offset) = Inr p1"
        using parseCSVRow_ok by blast
      from "1.IH"(2) [OF "1.prems"(2) Some c p1 "1.prems"(1) nx] show ?thesis
        by (simp add: parseRows_row [OF "1.prems"(2) Some c] p1)
    qed
  qed
qed

lemma rowLoop_unbounded: "sRow \<noteq> NaN \<Longrightarrow> rowLoop lines sRow PosInfinity p = Inl TypeError"
proof (cases "asIndex sRow")
  case None
  assume "sRow \<noteq> NaN"
  then have "num_le sRow PosInfinity" by (cases sRow) (simp_all add: num_le_def)
  with None show ?thesis by (simp add: rowLoop_def)
next
  case (Some k)
  assume "sRow \<noteq> NaN"
  then have "num_le sRow PosInfinity" by (cases sRow) (simp_all add: num_le_def)
  moreover have "parseRows lines k (max k (int (length lines))) k 0 p = Inl TypeError"
    by (rule parseRows_overrun) simp_all
  ultimately show ?thesis using Some by (simp add: rowLoop_def)
qed

lemma tokenize_raises:
  "fst (tokenize B po t p) = Some e \<longleftrightarrow>
     e = TypeError
     \<and> num_le (clampStartRow (startRow po)) (clampEndRow (endRow po) (splitLines t (lineDelimiter po)))
     \<and> asIndex (clampStartRow (startRow po)) = None"
proof -
  let ?lines = "splitLines t (lineDelimiter po)"
  let ?p1 = "if \<not> truthy (itemDelimiter po)
             then (case guessDelimiter B p ?lines of
                     (guessed, p') \<Rightarrow> p'\<lparr>guessedItemDelimiter := Some guessed\<rparr>)
             else p"
  let ?r = "rowLoop ?lines (clampStartRow (startRow po)) (clampEndRow (endRow po) ?lines) ?p1"
  have eq: "tokenize B po t p = (case ?r of Inl e \<Rightarrow> (Some e, ?p1) | Inr p2 \<Rightarrow> (None, p2))"
    unfolding tokenize_def Let_def by (rule refl)
  have "fst (tokenize B po t p) = Some e \<longleftrightarrow> ?r = Inl e"
  proof (cases ?r)
    case (Inl a)
    then have "tokenize B po t p = (Some a, ?p1)" by (simp only: eq sum.case)
    with Inl show ?thesis by simp
  next
    case (Inr b)
    then have "tokenize B po t p = (None, b)" by (simp only: eq sum.case)
    with Inr show ?thesis by simp
  qed
  then show ?thesis
    using rowLoop_clamped [of ?lines "startRow po" "endRow po" ?p1 e] by simp
qed

lemma guessDelimiter_result:
  "fst (guessDelimiter B p ls) = '','' \<or> fst (guessDelimiter B p ls) = '';''"
  by (simp add: guessDelimiter_def Let_def)

section \<open>Facts about the sniffer\<close>

lemma dom_pot_incr: "dom (pot_incr m k) = dom m"
  by (auto simp: pot_incr_def split: option.splits)

lemma sniffChar_dom:
  "dom (potDelimiters (snd (snd (snd (sniffChar B s j inStr tok g))))) = dom (potDelimiters g)"
  by (simp add: sniffChar_def Let_def dom_pot_incr split: prod.splits)

lemma sniffLine_end: "\<not> j < length s \<Longrightarrow> sniffLine B s j inStr tok g = g"
  by (rule trans [OF sniffLine.simps]) simp

lemma sniffLine_hash:
  "j < length s \<Longrightarrow> s ! j = hash \<Longrightarrow> sniffLine B s j inStr tok g = g"
  by (rule trans [OF sniffLine.simps]) (simp add: charAt_nat)

lemma sniffLine_step:
  "j < length s \<Longrightarrow> s ! j \<noteq> hash \<Longrightarrow> sniffChar B s j inStr tok g = (j', inStr', tok', g') \<Longrightarrow>
   sniffLine B s j inStr tok g = sniffLine B s (j' + 1) inStr' tok' g'"
  by (rule trans [OF sniffLine.simps]) (simp add: charAt_nat)

lemma sniffLine_dom: "dom (potDelimiters (sniffLine B s j inStr tok g)) = dom (potDelimiters g)"
proof (induction B s j inStr tok g rule: sniffLine.induct)
  case (1 B s j inStr tok g)
  show ?case
  proof (cases "j < length s \<and> s ! j \<noteq> hash")
    case False
    then have "sniffLine B s j inStr tok g = g"
      using sniffLine_end [of j s B inStr tok g] sniffLine_hash [of j s B inStr tok g] by blast
    then show ?thesis by simp
  next
    case True
    obtain j' inStr' tok' g' where sc: "sniffChar B s j inStr tok g = (j', inStr', tok', g')"
      by (cases "sniffChar B s j inStr tok g") auto
    have ne: "charAt s (int j) \<noteq> Some hash" using True by (simp add: charAt_nat)
    have "dom (potDelimiters (sniffLine B s (j' + 1) inStr' tok' g')) = dom (potDelimiters g')"
      using "1.IH" [OF _ ne sc [symmetric] refl refl] True by simp
    moreover have "dom (potDelimiters g') = dom (potDelimiters g)"
      using sniffChar_dom [of B s j inStr tok g] sc by simp
    ultimately show ?thesis using True sc by (simp add: sniffLine_step)
  qed
qed

lemma sniffLines_stop: "\<not> (i < length lines \<and> i \<le> 13) \<Longrightarrow> sniffLines B lines i g = g"
  by (rule trans [OF sniffLines.simps]) auto

lemma sniffLines_step:
  "i < length lines \<Longrightarrow> i \<le> 13 \<Longrightarrow>
   sniffLines B lines i g = sniffLines B lines (i + 1) (sniffLine B (lines ! i) 0 False [] g)"
  by (rule trans [OF sniffLines.simps]) auto

lemma sniffLines_dom: "dom (potDelimiters (sniffLines B lines i g)) = dom (potDelimiters g)"
proof (induction B lines i g rule: sniffLines.induct)
  case (1 B lines i g)
  show ?case
  proof (cases "i < length lines \<and> i \<le> 13")
    case False
    then show ?thesis by (simp add: sniffLines_stop)
  next
    case True
    then have "\<not> 13 < i" by simp
    from "1.IH" [OF _ this] True show ?thesis
      by (simp add: sniffLines_step sniffLine_dom)
  qed
qed

lemma potDelimiters_keys:
  "\<exists>nc ns nt. potDelimiters (sniffLines B lines 0 sniff0) (CHR '','') = Some nc
     \<and> potDelimiters (sniffLines B lines 0 sniff0) (CHR '';'') = Some ns
     \<and> potDelimiters (sniffLines B lines 0 sniff0) (CHR 0x09) = Some nt"
proof -
  have "dom (potDelimiters (sniffLines B lines 0 sniff0)) = {CHR '','', CHR '';'', CHR 0x09}"
    by (auto simp: sniffLines_dom sniff0_def potDelimiters0_def)
  then show ?thesis by (auto simp: dom_def set_eq_iff)
qed

text \<open>Lines without quotes: each of the three counters of the dictionary counts the
  occurrences of its character that follow a text speaking for a delimiter.\<close>

lemma fieldBefore_0: "fieldBefore s 0 = []"
  by (simp add: fieldBefore_def)

lemma fieldBefore_Suc:
  "j < length s \<Longrightarrow>
   fieldBefore s (j + 1) = (if candidate (s ! j) then [] else fieldBefore s j @ [s ! j])"
  by (simp add: fieldBefore_def take_Suc_conv_app_nth)

lemma sniffChar_plain:
  assumes "j < length s" and "s ! j \<noteq> dquote"
      and "\<forall>c. (potDelimiters g c \<noteq> None) = candidate c"
  shows "\<exists>g'. sniffChar B s j inStr tok g
                 = (j, inStr, if candidate (s ! j) then [] else tok @ [s ! j], g')
           \<and> potDelimiters g'
               = (if candidate (s ! j) \<and> evidence B (trim tok)
                  then pot_incr (potDelimiters g) (Some (s ! j)) else potDelimiters g)"
  using assms
  by (auto simp: sniffChar_def Let_def charAt_nat pot_lookup_def evidence_def append_char_def)

lemma before_hash:
  assumes "j \<le> length (takeWhile (\<lambda>c. c \<noteq> hash) s)" and "j < length s"
  shows "s ! j \<noteq> hash \<longleftrightarrow> j < length (takeWhile (\<lambda>c. c \<noteq> hash) s)"
proof
  assume ne: "s ! j \<noteq> hash"
  show "j < length (takeWhile (\<lambda>c. c \<noteq> hash) s)"
  proof (rule ccontr)
    assume "\<not> j < length (takeWhile (\<lambda>c. c \<noteq> hash) s)"
    with assms(1) have eq: "j = length (takeWhile (\<lambda>c. c \<noteq> hash) s)" by simp
    with assms(2) have "\<not> (s ! j \<noteq> hash)"
      using nth_length_takeWhile [of "\<lambda>c. c \<noteq> hash" s] by simp
    with ne show False by simp
  qed
next
  assume lt: "j < length (takeWhile (\<lambda>c. c \<noteq> hash) s)"
  then have "takeWhile (\<lambda>c. c \<noteq> hash) s ! j = s ! j"
    by (rule takeWhile_nth)
  moreover have "takeWhile (\<lambda>c. c \<noteq> hash) s ! j \<in> set (takeWhile (\<lambda>c. c \<noteq> hash) s)"
    using lt by simp
  ultimately show "s ! j \<noteq> hash"
    using set_takeWhileD by fastforce
qed

lemma sniffLine_pot:
  assumes "dquote \<notin> set s" and "\<forall>c. (potDelimiters g c \<noteq> None) = candidate c"
      and "j \<le> length (takeWhile (\<lambda>c. c \<noteq> hash) s)" and "tok = fieldBefore s j"
      and "candidate d"
  shows "potDelimiters (sniffLine B s j inStr tok g) d
           = Some (the (potDelimiters g d)
                   + length (filter (\<lambda>j. s ! j = d \<and> evidence B (trim (fieldBefore s j)))
                               [j..<length (takeWhile (\<lambda>c. c \<noteq> hash) s)]))"
  using assms
proof (induction B s j inStr tok g rule: sniffLine.induct)
  case (1 B s j inStr tok g)
  let ?n = "length (takeWhile (\<lambda>c. c \<noteq> hash) s)"
  let ?P = "\<lambda>j. s ! j = d \<and> evidence B (trim (fieldBefore s j))"
  have nle: "?n \<le> length s" by (rule length_takeWhile_le)
  have "potDelimiters g d \<noteq> None" using "1.prems"(2,5) by blast
  then obtain m where m: "potDelimiters g d = Some m" by auto
  show ?case
  proof (cases "j < length s")
    case False
    with nle "1.prems"(3) have "j = ?n" by simp
    with False m show ?thesis by (simp add: sniffLine_end)
  next
    case True
    show ?thesis
    proof (cases "s ! j = hash")
      case h: True
      with before_hash [OF "1.prems"(3) True] "1.prems"(3) have "j = ?n" by simp
      with True h m show ?thesis by (simp add: sniffLine_hash)
    next
      case nh: False
      with before_hash [OF "1.prems"(3) True] have lt: "j < ?n" by simp
      have nq: "s ! j \<noteq> dquote" using True "1.prems"(1) by (metis nth_mem)
      from sniffChar_plain [OF True nq "1.prems"(2), of B inStr tok]
      obtain g' where sc: "sniffChar B s j inStr tok g
                 = (j, inStr, if candidate (s ! j) then [] else tok @ [s ! j], g')"
        and pg: "potDelimiters g'
               = (if candidate (s ! j) \<and> evidence B (trim tok)
                  then pot_incr (potDelimiters g) (Some (s ! j)) else potDelimiters g)"
        by blast
      have dom': "\<forall>c. (potDelimiters g' c \<noteq> None) = candidate c"
      proof
        fix c
        have "dom (potDelimiters g') = dom (potDelimiters g)"
          using pg by (simp add: dom_pot_incr)
        then have "(potDelimiters g' c \<noteq> None) = (potDelimiters g c \<noteq> None)"
          by (auto simp: dom_def set_eq_iff)
        with "1.prems"(2) show "(potDelimiters g' c \<noteq> None) = candidate c" by simp
      qed
      have tk: "(if candidate (s ! j) then [] else tok @ [s ! j]) = fieldBefore s (j + 1)"
        using fieldBefore_Suc [OF True] "1.prems"(4) by simp
      have ne: "charAt s (int j) \<noteq> Some hash" using True nh by (simp add: charAt_nat)
      have ih: "potDelimiters (sniffLine B s (j + 1) inStr
                   (if candidate (s ! j) then [] else tok @ [s ! j]) g') d
                 = Some (the (potDelimiters g' d) + length (filter ?P [j + 1..<?n]))"
        using "1.IH" [OF True ne sc [symmetric] refl refl "1.prems"(1) dom' _ tk "1.prems"(5)] lt
        by simp
      have up: "[j..<?n] = j # [j + 1..<?n]"
        using lt by (simp add: upt_conv_Cons)
      have g'd: "the (potDelimiters g' d) = m + (if ?P j then 1 else 0)"
      proof (cases "candidate (s ! j) \<and> evidence B (trim tok)")
        case False
        then have np: "\<not> ?P j" using "1.prems"(4,5) by auto
        from False have "potDelimiters g' = potDelimiters g"
          by (simp only: pg if_False)
        with np m show ?thesis by simp
      next
        case c: True
        then have "potDelimiters g (s ! j) \<noteq> None" using "1.prems"(2) by blast
        then obtain k where k: "potDelimiters g (s ! j) = Some k" by auto
        from c pg have "potDelimiters g' d = pot_incr (potDelimiters g) (Some (s ! j)) d"
          by simp
        also have "\<dots> = (if d = s ! j then Some (k + 1) else potDelimiters g d)"
          using k by (simp add: pot_incr_def)
        finally show ?thesis using m k c "1.prems"(4) by auto
      qed
      show ?thesis
        using ih g'd m by (simp add: sniffLine_step [OF True nh sc] up)
    qed
  qed
qed

lemma sniffLines_pot:
  assumes "list_all (\<lambda>l. dquote \<notin> set l) (take 14 lines)"
      and "\<forall>c. (potDelimiters g c \<noteq> None) = candidate c" and "candidate d"
  shows "potDelimiters (sniffLines B lines i g) d
           = Some (the (potDelimiters g d)
                   + sum_list (map (counted B d) (drop i (take 14 lines))))"
  using assms
proof (induction B lines i g rule: sniffLines.induct)
  case (1 B lines i g)
  have "potDelimiters g d \<noteq> None" using "1.prems"(2,3) by blast
  then obtain m where m: "potDelimiters g d = Some m" by auto
  show ?case
  proof (cases "i < length lines \<and> i \<le> 13")
    case False
    then have "drop i (take 14 lines) = []" by auto
    with False m show ?thesis by (simp add: sniffLines_stop)
  next
    case True
    then have n13: "\<not> 13 < i" and lt: "i < length (take 14 lines)" by simp_all
    have li: "take 14 lines ! i = lines ! i" using True by simp
    have "lines ! i \<in> set (take 14 lines)" using lt li nth_mem [OF lt] by simp
    with "1.prems"(1) have nq: "dquote \<notin> set (lines ! i)"
      by (auto simp: list_all_iff)
    have dr: "drop i (take 14 lines) = lines ! i # drop (i + 1) (take 14 lines)"
      using Cons_nth_drop_Suc [OF lt] li by simp
    let ?g = "sniffLine B (lines ! i) 0 False [] g"
    have one: "potDelimiters ?g d = Some (m + counted B d (lines ! i))"
      using sniffLine_pot [OF nq "1.prems"(2) _ _ "1.prems"(3), of 0 "[]" B False] m
      by (simp add: fieldBefore_0 counted_def)
    have dom': "\<forall>c. (potDelimiters ?g c \<noteq> None) = candidate c"
    proof
      fix c
      have "dom (potDelimiters ?g) = dom (potDelimiters g)" by (rule sniffLine_dom)
      then have "(potDelimiters ?g c \<noteq> None) = (potDelimiters g c \<noteq> None)"
        by (auto simp: dom_def set_eq_iff)
      with "1.prems"(2) show "(potDelimiters ?g c \<noteq> None) = candidate c" by simp
    qed
    from "1.IH" [OF _ n13 "1.prems"(1) dom' "1.prems"(3)] True one m
    show ?thesis
      by (simp add: sniffLines_step dr)
  qed
qed

lemma sniff0_keys: "\<forall>c. (potDelimiters sniff0 c \<noteq> None) = candidate c"
  by (simp add: sniff0_def potDelimiters0_def candidate_def)

lemma potDelimiters_counted:
  assumes "list_all (\<lambda>l. dquote \<notin> set l) (take 14 lines)" and "candidate d"
  shows "potDelimiters (sniffLines B lines 0 sniff0) d
           = Some (sum_list (map (counted B d) (take 14 lines)))"
  using sniffLines_pot [OF assms(1) sniff0_keys assms(2), of B 0] assms(2)
  by (auto simp: sniff0_def potDelimiters0_def candidate_def)

text \<open>A parser built without a decimal point has the default \<open>.\<close>; with a truthy
  decimal point the sniffer leaves the instance as it is.\<close>

lemma constructor_decimalPoint:
  "decimalPoint opts = None \<Longrightarrow> decimalPoint (options (constructor base opts)) = Some ''.''"
  by (simp add: constructor_def merge_def override_def defaultOptions_def)

lemma guessDelimiter_configured:
  "truthy (decimalPoint (options p)) \<Longrightarrow> snd (guessDelimiter B p lines) = p"
  by (simp add: guessDelimiter_def Let_def)

section \<open>Facts about row numbers\<close>

lemma get_at_set_at: "r' \<noteq> r \<Longrightarrow> get_at (set_at xs r v) r' = get_at xs r'"
  by (auto simp: get_at_def set_at_def nth_append nth_list_update; arith)

lemma length_set_at: "0 \<le> r \<Longrightarrow> int (length xs) \<le> r + 1 \<Longrightarrow> int (length (set_at xs r v)) \<le> r + 1"
  by (auto simp: set_at_def)

lemma push_cell:
  assumes "push opts r st = Inr st'" and "r' \<noteq> r"
  shows "cellAt (cols st') c r' = cellAt (cols st) c r'"
proof (cases "js_gt (startColumn opts) (Some (Num (actualColumn st)))
    \<or> js_gt (Some (Num (actualColumn st))) (endColumn opts)")
  case True
  with assms show ?thesis by (auto simp: push_def)
next
  case False
  let ?cs = "if length (cols st) < column st + 1 then cols st @ [[]] else cols st"
  have e: "cellAt ?cs c r' = cellAt (cols st) c r'"
    by (auto simp: cellAt_def nth_append get_at_def)
  from assms False have lt: "column st < length ?cs"
    and st': "cols st' = ?cs[column st := set_at (?cs ! column st) r (token st)]"
    by (auto simp: push_def Let_def split: if_splits)
  have "cellAt (cols st') c r' = cellAt ?cs c r'"
    unfolding st' using assms(2)
    by (cases "c = column st") (simp_all add: cellAt_def get_at_set_at)
  with e show ?thesis by simp
qed

lemma push_rows:
  assumes "push opts r st = Inr st'" and "0 \<le> r" and "rowsBelow (cols st) (r + 1)"
  shows "rowsBelow (cols st') (r + 1)"
proof (cases "js_gt (startColumn opts) (Some (Num (actualColumn st)))
    \<or> js_gt (Some (Num (actualColumn st))) (endColumn opts)")
  case True
  with assms show ?thesis by (auto simp: push_def)
next
  case False
  let ?cs = "if length (cols st) < column st + 1 then cols st @ [[]] else cols st"
  have rb: "rowsBelow ?cs (r + 1)"
    using assms(2,3) by (auto simp: rowsBelow_def)
  from assms False have lt: "column st < length ?cs"
    and st': "cols st' = ?cs[column st := set_at (?cs ! column st) r (token st)]"
    by (auto simp: push_def Let_def split: if_splits)
  have "int (length (?cs ! column st)) \<le> r + 1"
    using rb lt unfolding rowsBelow_def list_all_length by blast
  then have "int (length (set_at (?cs ! column st) r (token st))) \<le> r + 1"
    using assms(2) by (rule length_set_at [rotated])
  with rb lt show ?thesis
    unfolding st' rowsBelow_def list_all_length by (auto simp: nth_list_update)
qed

lemma scanRow_cell:
  "scanRow opts d r s i st = Inr st' \<Longrightarrow> r' \<noteq> r \<Longrightarrow>
   cellAt (cols st') c r' = cellAt (cols st) c r'"
proof (induction opts d r s i st rule: scanRow.induct)
  case (1 opts d r s i st)
  show ?case
  proof (cases "i < length s")
    case False
    with "1.prems" show ?thesis by (simp add: scanRow_end push_cell)
  next
    case True
    obtain cl cn where rd: "read s (int i) = (Some (s ! i), cl, cn)"
      using True by (simp add: read_def charAt_nat)
    consider (hash) "s ! i = hash" | (quote) "s ! i = dquote"
      | (delim) "s ! i \<noteq> hash" "s ! i \<noteq> dquote" "char_eq (Some (s ! i)) d"
      | (plain) "s ! i \<noteq> hash" "s ! i \<noteq> dquote" "\<not> char_eq (Some (s ! i)) d"
      by blast
    then show ?thesis
    proof cases
      case hash
      with "1.prems" True show ?thesis by (simp add: scanRow_hash push_cell)
    next
      case quote
      obtain i' tok' where q: "quoted s (i + 1) (token st) = (i', tok')"
        by (cases "quoted s (i + 1) (token st)") auto
      have ne: "Some (s ! i) \<noteq> Some hash" using quote by simp
      have run: "scanRow opts d r s (i' + 1) (st\<lparr>token := tok'\<rparr>) = Inr st'"
        using "1.prems"(1) True quote q by (simp add: scanRow_quote)
      from "1.IH"(1) [OF True rd [symmetric] refl ne _ q [symmetric] run "1.prems"(2)] quote
      show ?thesis by simp
    next
      case delim
      from "1.prems"(1) True delim obtain st1 where p: "push opts r st = Inr st1"
        and run: "scanRow opts d r s (i + 1) st1 = Inr st'"
        by (auto simp: scanRow_delim split: sum.splits)
      have ne: "Some (s ! i) \<noteq> Some hash" "Some (s ! i) \<noteq> Some dquote" using delim by simp_all
      from "1.IH"(2) [OF True rd [symmetric] refl ne delim(3) p run "1.prems"(2)]
        push_cell [OF p "1.prems"(2)]
      show ?thesis by simp
    next
      case plain
      have ne: "Some (s ! i) \<noteq> Some hash" "Some (s ! i) \<noteq> Some dquote" using plain by simp_all
      have run: "scanRow opts d r s (i + 1) (st\<lparr>token := append_char (token st) (Some (s ! i))\<rparr>) = Inr st'"
        using "1.prems"(1) True plain by (simp add: scanRow_plain append_char_def)
      from "1.IH"(3) [OF True rd [symmetric] refl ne plain(3) run "1.prems"(2)]
      show ?thesis by simp
    qed
  qed
qed

lemma scanRow_rows:
  "scanRow opts d r s i st = Inr st' \<Longrightarrow> 0 \<le> r \<Longrightarrow> rowsBelow (cols st) (r + 1) \<Longrightarrow>
   rowsBelow (cols st') (r + 1)"
proof (induction opts d r s i st rule: scanRow.induct)
  case (1 opts d r s i st)
  show ?case
  proof (cases "i < length s")
    case False
    with "1.prems" show ?thesis by (simp add: scanRow_end push_rows)
  next
    case True
    obtain cl cn where rd: "read s (int i) = (Some (s ! i), cl, cn)"
      using True by (simp add: read_def charAt_nat)
    consider (hash) "s ! i = hash" | (quote) "s ! i = dquote"
      | (delim) "s ! i \<noteq> hash" "s ! i \<noteq> dquote" "char_eq (Some (s ! i)) d"
      | (plain) "s ! i \<noteq> hash" "s ! i \<noteq> dquote" "\<not> char_eq (Some (s ! i)) d"
      by blast
    then show ?thesis
    proof cases
      case hash
      with "1.prems" True show ?thesis by (simp add: scanRow_hash push_rows)
    next
      case quote
      obtain i' tok' where q: "quoted s (i + 1) (token st) = (i', tok')"
        by (cases "quoted s (i + 1) (token st)") auto
      have ne: "Some (s ! i) \<noteq> Some hash" using quote by simp
      have run: "scanRow opts d r s (i' + 1) (st\<lparr>token := tok'\<rparr>) = Inr st'"
        using "1.prems"(1) True quote q by (simp add: scanRow_quote)
      from "1.IH"(1) [OF True rd [symmetric] refl ne _ q [symmetric] run "1.prems"(2)] quote "1.prems"(3)
      show ?thesis by simp
    next
      case delim
      from "1.prems"(1) True delim obtain st1 where p: "push opts r st = Inr st1"
        and run: "scanRow opts d r s (i + 1) st1 = Inr st'"
        by (auto simp: scanRow_delim split: sum.splits)
      have ne: "Some (s ! i) \<noteq> Some hash" "Some (s ! i) \<noteq> Some dquote" using delim by simp_all
      from "1.IH"(2) [OF True rd [symmetric] refl ne delim(3) p run "1.prems"(2)]
        push_rows [OF p "1.prems"(2,3)]
      show ?thesis by simp
    next
      case plain
      have ne: "Some (s ! i) \<noteq> Some hash" "Some (s ! i) \<noteq> Some dquote" using plain by simp_all
      have run: "scanRow opts d r s (i + 1) (st\<lparr>token := append_char (token st) (Some (s ! i))\<rparr>) = Inr st'"
        using "1.prems"(1) True plain by (simp add: scanRow_plain append_char_def)
      from "1.IH"(3) [OF True rd [symmetric] refl ne plain(3) run "1.prems"(2)] "1.prems"(3)
      show ?thesis by simp
    qed
  qed
qed

lemma parseCSVRow_cell:
  assumes "parseCSVRow p l r = Inr p'" and "r' \<noteq> r"
  shows "cellAt (columns p') c r' = cellAt (columns p) c r'"
  using assms scanRow_cell [of "options p" _ r l 0 _ _ r' c]
  by (auto simp: parseCSVRow_def Let_def split: if_splits sum.splits)

lemma rowsBelow_mono: "rowsBelow cs n \<Longrightarrow> n \<le> m \<Longrightarrow> rowsBelow cs m"
  by (auto simp: rowsBelow_def list_all_iff)

lemma parseCSVRow_rows:
  assumes "parseCSVRow p l r = Inr p'" and "0 \<le> r" and "rowsBelow (columns p) r"
  shows "rowsBelow (columns p') (r + 1)"
proof -
  have rb: "rowsBelow (columns p) (r + 1)" using assms(3) by (rule rowsBelow_mono) simp
  show ?thesis
    using assms(1,2) rb scanRow_rows [of "options p" _ r l 0 "\<lparr>token = [], actualColumn = 0, column = 0, cols = columns p\<rparr>"]
    by (auto simp: parseCSVRow_def Let_def split: if_splits sum.splits)
qed

lemma rowsBelow_cell: "rowsBelow cs n \<Longrightarrow> n \<le> r \<Longrightarrow> cellAt cs c r = None"
  by (auto simp: rowsBelow_def list_all_length cellAt_def get_at_def)


lemma parseCSVRow_skipped:
  "trim l = [] \<or> charAt (trim l) 0 = Some hash \<Longrightarrow> parseCSVRow p l r = Inr p"
  by (auto simp: parseCSVRow_def Let_def)

lemma parseRows_error:
  "rowIt \<le> eRow \<Longrightarrow> lineAt lines rowIt = None \<Longrightarrow>
   parseRows lines sRow eRow rowIt offset p = Inl TypeError"
  by (rule trans [OF parseRows.simps]) simp

text \<open>The loop from \<open>rowIt\<close> on writes no row below its current row number.\<close>

lemma parseRows_cell:
  "parseRows lines sRow eRow rowIt offset p = Inr p' \<Longrightarrow> r' < rowIt - sRow - offset \<Longrightarrow>
   cellAt (columns p') c r' = cellAt (columns p) c r'"
proof (induction lines sRow eRow rowIt offset p rule: parseRows.induct)
  case (1 lines sRow eRow rowIt offset p)
  show ?case
  proof (cases "rowIt \<le> eRow")
    case False
    with "1.prems" show ?thesis by (simp add: parseRows_done)
  next
    case True
    show ?thesis
    proof (cases "lineAt lines rowIt")
      case None
      with "1.prems" True show ?thesis by (simp add: parseRows_error)
    next
      case (Some l)
      show ?thesis
      proof (cases "charAt l 0 = Some hash")
        case c: True
        have run: "parseRows lines sRow eRow (rowIt + 1) (offset + 1) p = Inr p'"
          using "1.prems"(1) by (simp add: parseRows_comment [OF True Some c])
        from "1.IH"(1) [OF True Some c run] "1.prems"(2) show ?thesis by simp
      next
        case c: False
        from "1.prems"(1) obtain p1 where p1: "parseCSVRow p l (rowIt - sRow - offset) = Inr p1"
          and run: "parseRows lines sRow eRow (rowIt + 1) offset p1 = Inr p'"
          by (auto simp: parseRows_row [OF True Some c] split: sum.splits)
        have "cellAt (columns p') c r' = cellAt (columns p1) c r'"
          using "1.IH"(2) [OF True Some c p1 run] "1.prems"(2) by simp
        also have "\<dots> = cellAt (columns p) c r'"
          using parseCSVRow_cell [OF p1, of r' c] "1.prems"(2) by simp
        finally show ?thesis .
      qed
    qed
  qed
qed

lemma commentsBetween_same: "commentsBetween lines k k = 0"
  by (simp add: commentsBetween_def)

lemma commentsBetween_step:
  "a < b \<Longrightarrow> commentsBetween lines a b
     = (if commentLine lines a then 1 else 0) + commentsBetween lines (a + 1) b"
  by (simp add: commentsBetween_def upto_rec1 [of a "b - 1"])

text \<open>A skipped line that is not a comment line leaves its row number unset.\<close>

lemma parseRows_gap:
  "parseRows lines sRow eRow rowIt offset p = Inr p' \<Longrightarrow>
   rowIt \<le> k \<Longrightarrow> k \<le> eRow \<Longrightarrow> lineAt lines k = Some b \<Longrightarrow>
   trim b = [] \<or> charAt (trim b) 0 = Some hash \<Longrightarrow> charAt b 0 \<noteq> Some hash \<Longrightarrow>
   0 \<le> rowIt - sRow - offset \<Longrightarrow> rowsBelow (columns p) (rowIt - sRow - offset) \<Longrightarrow>
   cellAt (columns p') c (k - sRow - offset - commentsBetween lines rowIt k) = None"
proof (induction lines sRow eRow rowIt offset p rule: parseRows.induct)
  case (1 lines sRow eRow rowIt offset p)
  have le: "rowIt \<le> eRow" using "1.prems"(2,3) by simp
  show ?case
  proof (cases "rowIt = k")
    case True
    have l: "lineAt lines rowIt = Some b" using "1.prems"(4) True by simp
    have "parseCSVRow p b (rowIt - sRow - offset) = Inr p"
      using "1.prems"(5) by (rule parseCSVRow_skipped)
    then have run: "parseRows lines sRow eRow (rowIt + 1) offset p = Inr p'"
      using "1.prems"(1) by (simp add: parseRows_row [OF le l "1.prems"(6)])
    have "cellAt (columns p') c (rowIt - sRow - offset) = cellAt (columns p) c (rowIt - sRow - offset)"
      using parseRows_cell [OF run, of "rowIt - sRow - offset" c] by simp
    also have "\<dots> = None"
      using rowsBelow_cell [OF "1.prems"(8)] by simp
    finally show ?thesis using True by (simp add: commentsBetween_same)
  next
    case False
    then have lt: "rowIt < k" using "1.prems"(2) by simp
    then have le': "rowIt + 1 \<le> k" by simp
    show ?thesis
    proof (cases "lineAt lines rowIt")
      case None
      with "1.prems"(1) le show ?thesis by (simp add: parseRows_error)
    next
      case (Some l)
      show ?thesis
      proof (cases "charAt l 0 = Some hash")
        case c: True
        have cl: "commentLine lines rowIt" using Some c by (simp add: commentLine_def)
        have run: "parseRows lines sRow eRow (rowIt + 1) (offset + 1) p = Inr p'"
          using "1.prems"(1) by (simp add: parseRows_comment [OF le Some c])
        have n0: "0 \<le> rowIt + 1 - sRow - (offset + 1)" using "1.prems"(7) by simp
        have "rowIt + 1 - sRow - (offset + 1) = rowIt - sRow - offset" by simp
        then have rb0: "rowsBelow (columns p) (rowIt + 1 - sRow - (offset + 1))"
          using "1.prems"(8) by (simp only:)
        have "cellAt (columns p') c (k - sRow - (offset + 1) - commentsBetween lines (rowIt + 1) k) = None"
          using "1.IH"(1) [OF le Some c run le' "1.prems"(3,4,5,6) n0 rb0] .
        then show ?thesis
          using commentsBetween_step [OF lt, of lines] cl by (simp add: algebra_simps)
      next
        case c: False
        have cl: "\<not> commentLine lines rowIt" using Some c by (simp add: commentLine_def)
        from "1.prems"(1) obtain p1 where p1: "parseCSVRow p l (rowIt - sRow - offset) = Inr p1"
          and run: "parseRows lines sRow eRow (rowIt + 1) offset p1 = Inr p'"
          by (auto simp: parseRows_row [OF le Some c] split: sum.splits)
        have rb: "rowsBelow (columns p1) (rowIt + 1 - sRow - offset)"
          using parseCSVRow_rows [OF p1 "1.prems"(7,8)] by (simp add: algebra_simps)
        have n1: "0 \<le> rowIt + 1 - sRow - offset" using "1.prems"(7) by simp
        have "cellAt (columns p') c (k - sRow - offset - commentsBetween lines (rowIt + 1) k) = None"
          using "1.IH"(2) [OF le Some c p1 run le' "1.prems"(3,4,5,6) n1 rb] .
        then show ?thesis
          using commentsBetween_step [OF lt, of lines] cl by simp
      qed
    qed
  qed
qed

lemma nth_remove:
  assumes "n < length xs" and "m < length xs - 1"
  shows "(take n xs @ drop (Suc n) xs) ! m = (if m < n then xs ! m else xs ! Suc m)"
proof (cases "m < n")
  case True
  then show ?thesis using assms by (simp add: nth_append)
next
  case False
  then have "(take n xs @ drop (Suc n) xs) ! m = drop (Suc n) xs ! (m - n)"
    using assms by (simp add: nth_append min_def)
  also have "\<dots> = xs ! (Suc n + (m - n))"
    using assms False by (intro nth_drop) simp
  also have "Suc n + (m - n) = Suc m" using False by simp
  finally show ?thesis using False by simp
qed

lemma length_removeLine:
  "0 \<le> k \<Longrightarrow> nat k < length lines \<Longrightarrow> length (removeLine lines k) = length lines - 1"
  by (simp add: removeLine_def min_def)

lemma lineAt_removeLine:
  assumes "0 \<le> k" and "nat k < length lines"
  shows "lineAt (removeLine lines k) j = (if j < k then lineAt lines j else lineAt lines (j + 1))"
proof (cases "0 \<le> j")
  case False
  then show ?thesis using assms(1) by (simp add: lineAt_def)
next
  case True
  have len: "length (removeLine lines k) = length lines - 1"
    using assms by (rule length_removeLine)
  have nj: "nat (j + 1) = Suc (nat j)" using True by simp
  show ?thesis
  proof (cases "nat j < length lines - 1")
    case False
    then have "lineAt (removeLine lines k) j = None" by (simp add: lineAt_def len)
    moreover have "lineAt lines (j + 1) = None" using False True by (simp add: lineAt_def nj)
    moreover have "j < k \<Longrightarrow> False" using False assms True by simp
    ultimately show ?thesis by auto
  next
    case lt: True
    have "lineAt (removeLine lines k) j = Some ((take (nat k) lines @ drop (Suc (nat k)) lines) ! nat j)"
      using True lt by (simp add: lineAt_def len removeLine_def)
    also have "\<dots> = Some (if nat j < nat k then lines ! nat j else lines ! Suc (nat j))"
      using nth_remove [OF assms(2) lt] by simp
    also have "\<dots> = (if j < k then lineAt lines j else lineAt lines (j + 1))"
      using True lt assms(1) by (auto simp: lineAt_def nj)
    finally show ?thesis .
  qed
qed

lemma lineAt_Some: "lineAt lines k = Some l \<Longrightarrow> 0 \<le> k \<and> nat k < length lines"
  by (auto simp: lineAt_def split: if_splits)

text \<open>After a removed line, the loop on the shorter text runs one index and one
  offset lower.\<close>

lemma parseRows_shift:
  "k < rowIt \<Longrightarrow> 0 \<le> k \<Longrightarrow> nat k < length lines \<Longrightarrow>
   parseRows lines sRow eRow rowIt offset p =
   parseRows (removeLine lines k) sRow (eRow - 1) (rowIt - 1) (offset - 1) p"
proof (induction lines sRow eRow rowIt offset p rule: parseRows.induct)
  case (1 lines sRow eRow rowIt offset p)
  let ?ls = "removeLine lines k"
  show ?case
  proof (cases "rowIt \<le> eRow")
    case False
    then have "\<not> rowIt - 1 \<le> eRow - 1" by simp
    then show ?thesis
      using parseRows_done [OF False, of lines sRow offset p]
        parseRows_done [of "rowIt - 1" "eRow - 1" "removeLine lines k" sRow "offset - 1" p]
      by simp
  next
    case True
    then have le: "rowIt - 1 \<le> eRow - 1" by simp
    have la: "lineAt ?ls (rowIt - 1) = lineAt lines rowIt"
      using "1.prems"(1) by (simp add: lineAt_removeLine [OF "1.prems"(2,3)])
    have r1: "rowIt - 1 + 1 = rowIt" and o1: "offset - 1 + 1 = offset"
      and r2: "rowIt + 1 - 1 = rowIt" and o2: "offset + 1 - 1 = offset"
      and rn: "rowIt - 1 - sRow - (offset - 1) = rowIt - sRow - offset"
      by simp_all
    have k1: "k < rowIt + 1" using "1.prems"(1) by simp
    show ?thesis
    proof (cases "lineAt lines rowIt")
      case None
      then show ?thesis
        using parseRows_error [OF True None] parseRows_error [OF le la [unfolded None]] by simp
    next
      case (Some l)
      have la': "lineAt ?ls (rowIt - 1) = Some l" using la Some by simp
      show ?thesis
      proof (cases "charAt l 0 = Some hash")
        case c: True
        have "parseRows lines sRow eRow rowIt offset p
                = parseRows lines sRow eRow (rowIt + 1) (offset + 1) p"
          by (rule parseRows_comment [OF True Some c])
        also have "\<dots> = parseRows ?ls sRow (eRow - 1) (rowIt + 1 - 1) (offset + 1 - 1) p"
          by (rule "1.IH"(1) [OF True Some c k1 "1.prems"(2,3)])
        also have "\<dots> = parseRows ?ls sRow (eRow - 1) (rowIt - 1 + 1) (offset - 1 + 1) p"
          by (simp only: r1 r2 o1 o2)
        also have "\<dots> = parseRows ?ls sRow (eRow - 1) (rowIt - 1) (offset - 1) p"
          by (rule parseRows_comment [OF le la' c, symmetric])
        finally show ?thesis .
      next
        case c: False
        show ?thesis
        proof (cases "parseCSVRow p l (rowIt - sRow - offset)")
          case (Inl e)
          then show ?thesis
            using parseRows_row [OF True Some c, of sRow offset p]
              parseRows_row [OF le la' c, of sRow "offset - 1" p]
            by (simp only: rn sum.case)
        next
          case (Inr p1)
          have "parseRows lines sRow eRow rowIt offset p
                  = parseRows lines sRow eRow (rowIt + 1) offset p1"
            using parseRows_row [OF True Some c, of sRow offset p] Inr by simp
          also have "\<dots> = parseRows ?ls sRow (eRow - 1) (rowIt + 1 - 1) (offset - 1) p1"
            by (rule "1.IH"(2) [OF True Some c Inr k1 "1.prems"(2,3)])
          also have "\<dots> = parseRows ?ls sRow (eRow - 1) (rowIt - 1 + 1) (offset - 1) p1"
            by (simp only: r1 r2)
          also have "\<dots> = parseRows ?ls sRow (eRow - 1) (rowIt - 1) (offset - 1) p"
            using parseRows_row [OF le la' c, of sRow "offset - 1" p] Inr
            by (simp only: rn sum.case)
          finally show ?thesis .
        qed
      qed
    qed
  qed
qed

text \<open>A comment line can be deleted from the text without changing the result.\<close>

lemma parseRows_remove_comment:
  "rowIt \<le> k \<Longrightarrow> k \<le> eRow \<Longrightarrow> lineAt lines k = Some b \<Longrightarrow> charAt b 0 = Some hash \<Longrightarrow>
   parseRows lines sRow eRow rowIt offset p =
   parseRows (removeLine lines k) sRow (eRow - 1) rowIt offset p"
proof (induction lines sRow eRow rowIt offset p rule: parseRows.induct)
  case (1 lines sRow eRow rowIt offset p)
  let ?ls = "removeLine lines k"
  have k0: "0 \<le> k" and kl: "nat k < length lines"
    using lineAt_Some [OF "1.prems"(3)] by simp_all
  have le: "rowIt \<le> eRow" using "1.prems"(1,2) by simp
  show ?case
  proof (cases "rowIt = k")
    case True
    have l: "lineAt lines rowIt = Some b" using "1.prems"(3) True by simp
    have "parseRows lines sRow eRow rowIt offset p
            = parseRows lines sRow eRow (rowIt + 1) (offset + 1) p"
      by (rule parseRows_comment [OF le l "1.prems"(4)])
    also have "\<dots> = parseRows ?ls sRow (eRow - 1) (rowIt + 1 - 1) (offset + 1 - 1) p"
      by (rule parseRows_shift) (use True k0 kl in simp_all)
    finally show ?thesis by simp
  next
    case False
    then have lt: "rowIt < k" using "1.prems"(1) by simp
    then have le1: "rowIt \<le> eRow - 1" and le': "rowIt + 1 \<le> k" using "1.prems"(2) by simp_all
    have la: "lineAt ?ls rowIt = lineAt lines rowIt"
      using lt by (simp add: lineAt_removeLine [OF k0 kl])
    show ?thesis
    proof (cases "lineAt lines rowIt")
      case None
      then show ?thesis
        using parseRows_error [OF le None] parseRows_error [OF le1 la [unfolded None]] by simp
    next
      case (Some l)
      have la': "lineAt ?ls rowIt = Some l" using la Some by simp
      show ?thesis
      proof (cases "charAt l 0 = Some hash")
        case c: True
        have "parseRows lines sRow eRow rowIt offset p
                = parseRows lines sRow eRow (rowIt + 1) (offset + 1) p"
          by (rule parseRows_comment [OF le Some c])
        also have "\<dots> = parseRows ?ls sRow (eRow - 1) (rowIt + 1) (offset + 1) p"
          by (rule "1.IH"(1) [OF le Some c le' "1.prems"(2,3,4)])
        also have "\<dots> = parseRows ?ls sRow (eRow - 1) rowIt offset p"
          by (rule parseRows_comment [OF le1 la' c, symmetric])
        finally show ?thesis .
      next
        case c: False
        show ?thesis
        proof (cases "parseCSVRow p l (rowIt - sRow - offset)")
          case (Inl e)
          then show ?thesis
            using parseRows_row [OF le Some c, of sRow offset p]
              parseRows_row [OF le1 la' c, of sRow offset p]
            by simp
        next
          case (Inr p1)
          have "parseRows lines sRow eRow rowIt offset p
                  = parseRows lines sRow eRow (rowIt + 1) offset p1"
            using parseRows_row [OF le Some c, of sRow offset p] Inr by simp
          also have "\<dots> = parseRows ?ls sRow (eRow - 1) (rowIt + 1) offset p1"
            by (rule "1.IH"(2) [OF le Some c Inr le' "1.prems"(2,3,4)])
          also have "\<dots> = parseRows ?ls sRow (eRow - 1) rowIt offset p"
            using parseRows_row [OF le1 la' c, of sRow offset p] Inr by simp
          finally show ?thesis .
        qed
      qed
    qed
  qed
qed


section \<open>Quoted fields\<close>

text \<open>
  C1. Write \<open>Q\<close> for the quote character. With delimiter \<open>,\<close> the line \<open>Q a,b Q ,c\<close>
  gives the cells \<open>a,b\<close> and \<open>c\<close>, and a doubled quote between two other characters
  gives one quote: \<open>Q a QQ b Q\<close> gives the cell \<open>a Q b\<close>. A doubled quote right
  after the opening quote is lost: \<open>Q QQ a Q\<close>, the quoted form of the text \<open>Q a\<close>,
  gives the cell \<open>a\<close>. A doubled quote right before the closing quote keeps the
  field open: \<open>Q a QQ Q ,c\<close> gives the single cell \<open>a Q ,c\<close> (the blanks only
  separate the characters here).
\<close>

theorem quoted_field_escaped_quote_at_edge:
  "map_sum id columns (parseCSVRow commaParser (dquote # ''a,b'' @ dquote # '',c'') 0)
     = Inr [[Some ''a,b''], [Some ''c'']]
   \<and> map_sum id columns (parseCSVRow commaParser (dquote # ''a'' @ [dquote, dquote] @ ''b'' @ [dquote]) 0)
     = Inr [[Some (''a'' @ [dquote] @ ''b'')]]
   \<and> map_sum id columns (parseCSVRow commaParser ([dquote, dquote, dquote] @ ''a'' @ [dquote]) 0)
     = Inr [[Some ''a'']]
   \<and> map_sum id columns (parseCSVRow commaParser (dquote # ''a'' @ [dquote, dquote, dquote] @ '',c'') 0)
     = Inr [[Some (''a'' @ [dquote] @ '',c'')]]"
  by code_simp

section \<open>The row window\<close>

text \<open>
  C4. A configured end row of 0 is falsy and is replaced by the last line index,
  whatever the lines:
  with \<^verbatim>\<open>endRow: 0\<close> on the two lines \<open>a\<close> and \<open>b\<close> both lines are tokenized, where
  the window from row 0 to row 0 holds the first line only.
\<close>

theorem endRow_zero_parses_all_rows:
  "clampEndRow (Some (Num 0)) lines = Num (int (length lines) - 1)
   \<and> clampEndRow (Some (Num 0)) [''a'', ''b''] = Num 1
   \<and> columns (snd (parse sampleBuiltins commaParser
         (noOptions\<lparr>csv := Some (''a'' @ [CHR 0x0A] @ ''b''), endRow := Some (Num 0)\<rparr>)))
       = [[Some ''a'', Some ''b'']]"
proof (intro conjI)
  show "clampEndRow (Some (Num 0)) lines = Num (int (length lines) - 1)"
    by (simp add: clampEndRow_def falsy_def)
  show "clampEndRow (Some (Num 0)) [''a'', ''b''] = Num 1"
    by code_simp
  show "columns (snd (parse sampleBuiltins commaParser
         (noOptions\<lparr>csv := Some (''a'' @ [CHR 0x0A] @ ''b''), endRow := Some (Num 0)\<rparr>)))
       = [[Some ''a'', Some ''b'']]"
    by code_simp
qed

section \<open>The delimiter given to \<^verbatim>\<open>parse\<close>\<close>

text \<open>
  C5. An item delimiter in the options of \<^verbatim>\<open>parse\<close> switches the sniffer off, but the
  tokenizer reads the delimiter from the options of the constructor: a parser built
  without a delimiter and called with \<^verbatim>\<open>{ csv: 'a;b', itemDelimiter: ';' }\<close> leaves the
  line unsplit, where the same delimiter given to the constructor splits it.
\<close>

theorem parse_time_delimiter_not_used:
  "(let r = snd (parse sampleBuiltins plainParser
                  (noOptions\<lparr>csv := Some ''a;b'', itemDelimiter := Some '';''\<rparr>))
    in (columns r, guessedItemDelimiter r)) = ([[Some ''a;b'']], None)
   \<and> columns (snd (parse sampleBuiltins
                     (constructor sampleDefaults (noOptions\<lparr>itemDelimiter := Some '';''\<rparr>))
                     (noOptions\<lparr>csv := Some ''a;b''\<rparr>)))
       = [[Some ''a''], [Some ''b'']]"
  by code_simp

section \<open>Successive calls of \<^verbatim>\<open>parse\<close>\<close>

text \<open>
  C6. \<^verbatim>\<open>parse\<close> resets the columns and not the headers: after parsing the two
  columns \<^verbatim>\<open>a,b / 1,2\<close> and then the single column \<^verbatim>\<open>x / 3\<close> with the same
  parser, the headers are \<open>x\<close> and \<open>b\<close>; the name \<open>b\<close> is left from the first call.
\<close>

theorem headers_survive_second_parse:
  "(let r1 = snd (parse sampleBuiltins commaParser
                   (noOptions\<lparr>csv := Some (''a,b'' @ [CHR 0x0A] @ ''1,2'')\<rparr>));
        r2 = snd (parse sampleBuiltins r1 (noOptions\<lparr>csv := Some (''x'' @ [CHR 0x0A] @ ''3'')\<rparr>))
    in (headers r1, columns r2, headers r2))
   = ([Some ''a'', Some ''b''], [[Some ''x'', Some ''3'']], [Some ''x'', Some ''b''])"
  by code_simp

section \<open>Trailing comments\<close>

text \<open>
  C3, as stated: the row \<^verbatim>\<open>value,#comment\<close> does not give the single cell \<open>value\<close>.
\<close>

theorem trailing_comment_counterexample:
  "map_sum id columns (parseCSVRow commaParser ''value,#comment'' 0) \<noteq> Inr [[Some ''value'']]"
  by code_simp

text \<open>
  C3, amended. With delimiter \<open>,\<close> and columns 0 and 1 in the column window, a row
  that consists of a field \<open>v\<close> without quote, \<open>#\<close> or delimiter, the delimiter and a
  comment writes two cells at its row number, whatever the columns hold already:
  \<open>v\<close> in output column 0 and the empty text between the delimiter and \<open>#\<close> in
  output column 1. A column that does not exist yet is created, and every other
  cell stays as it was. Nothing of the comment reaches a cell.
\<close>

theorem trailing_comment_after_delimiter:
  assumes dl: "js_or (itemDelimiter (options p)) (guessedItemDelimiter p) = Some '',''"
      and w0: "\<not> js_gt (startColumn (options p)) (Some (Num 0))"
      and w1: "\<not> js_gt (Some (Num 1)) (endColumn (options p))"
      and v: "list_all (plainChar (Some '','')) v"
  shows "parseCSVRow p (v @ '','' @ [hash] @ comment) r =
           Inr (p\<lparr>columns := (case columns p of
                                 [] \<Rightarrow> [set_at [] r v, set_at [] r []]
                               | [c0] \<Rightarrow> [set_at c0 r v, set_at [] r []]
                               | c0 # c1 # rest \<Rightarrow> set_at c0 r v # set_at c1 r [] # rest)\<rparr>)"
proof -
  let ?s = "v @ '','' @ [hash] @ comment"
  let ?o = "options p"
  let ?d = "Some '',''"
  let ?C = "case columns p of
              [] \<Rightarrow> [set_at [] r v, set_at [] r []]
            | [c0] \<Rightarrow> [set_at c0 r v, set_at [] r []]
            | c0 # c1 # rest \<Rightarrow> set_at c0 r v # set_at c1 r [] # rest"
  let ?st0 = "\<lparr>token = [], actualColumn = 0, column = 0, cols = columns p\<rparr>"
  have "\<not> num_lt (Num 0) x \<Longrightarrow> \<not> num_lt (Num 1) x" for x
    by (cases x) auto
  then have w0': "\<not> js_gt (startColumn ?o) (Some (Num 1))"
    using w0 by (auto simp: js_gt_def split: option.splits)
  have "\<not> num_lt x (Num 1) \<Longrightarrow> \<not> num_lt x (Num 0)" for x
    by (cases x) auto
  then have w1': "\<not> js_gt (Some (Num 0)) (endColumn ?o)"
    using w1 by (auto simp: js_gt_def split: option.splits)
  let ?st1 = "\<lparr>token = [], actualColumn = 1, column = 1,
               cols = (case columns p of [] \<Rightarrow> [set_at [] r v]
                       | c0 # rest \<Rightarrow> set_at c0 r v # rest)\<rparr>"
  let ?st2 = "\<lparr>token = [], actualColumn = 2, column = 2, cols = ?C\<rparr>"
  have p1: "push ?o r (?st0\<lparr>token := v\<rparr>) = Inr ?st1"
    using w0 w1' by (cases "columns p") (simp_all add: push_def)
  have p2: "push ?o r ?st1 = Inr ?st2"
  proof (cases "columns p")
    case Nil
    with w0' w1 show ?thesis by (simp add: push_def)
  next
    case (Cons c0 rest)
    with w0' w1 show ?thesis by (cases rest) (simp_all add: push_def)
  qed
  have "scanRow ?o ?d r ?s 0 ?st0 = scanRow ?o ?d r ?s (length v) (?st0\<lparr>token := v\<rparr>)"
    using scanRow_field [OF v, of ?o r "[]" "'','' @ [hash] @ comment" ?st0] by simp
  also have "\<dots> = scanRow ?o ?d r ?s (length v + 1) ?st1"
    using scanRow_delim [of "length v" ?s ?d ?o r "?st0\<lparr>token := v\<rparr>"] p1
    by (simp add: nth_append char_eq_def)
  also have "\<dots> = Inr ?st2"
    using scanRow_hash [of "length v + 1" ?s ?o ?d r ?st1] p2
    by (simp add: nth_append)
  finally have scan: "scanRow ?o ?d r ?s 0 ?st0 = Inr ?st2" .
  have "trim ?s \<noteq> [] \<and> charAt (trim ?s) 0 \<noteq> Some hash"
    using not_skipped [OF v, of "CHR '',''" "[hash] @ comment"] by (simp add: isWhiteSpace_def)
  with scan dl show ?thesis
    by (simp add: parseCSVRow_def)
qed

text \<open>The row as the first row of an empty buffer, as the second row under a
  header row \<open>h\<close>, and through \<^verbatim>\<open>parse\<close>.\<close>

theorem trailing_comment_after_delimiter_witness:
  "parseCSVRow commaParser (''value'' @ '','' @ [hash] @ ''comment'') 0 =
      Inr (commaParser\<lparr>columns := [[Some ''value''], [Some []]]\<rparr>)
   \<and> parseCSVRow (commaParser\<lparr>columns := [[Some ''h'']]\<rparr>) (''value'' @ '','' @ [hash] @ ''comment'') 1 =
      Inr (commaParser\<lparr>columns := [[Some ''h'', Some ''value''], [None, Some []]]\<rparr>)
   \<and> columns (snd (parse sampleBuiltins commaParser
        (noOptions\<lparr>csv := Some (''h'' @ [CHR 0x0D, CHR 0x0A] @ ''value,#comment'')\<rparr>)))
       = [[Some ''h'', Some ''value''], [None, Some []]]"
proof -
  let ?q = "commaParser\<lparr>columns := [[Some ''h'']]\<rparr>"
  have h: "js_or (itemDelimiter (options commaParser)) (guessedItemDelimiter commaParser) = Some '',''"
     "\<not> js_gt (startColumn (options commaParser)) (Some (Num 0))"
     "\<not> js_gt (Some (Num 1)) (endColumn (options commaParser))"
     "list_all (plainChar (Some '','')) ''value''"
    by code_simp+
  have hq: "js_or (itemDelimiter (options ?q)) (guessedItemDelimiter ?q) = Some '',''"
     "\<not> js_gt (startColumn (options ?q)) (Some (Num 0))"
     "\<not> js_gt (Some (Num 1)) (endColumn (options ?q))"
    using h by simp_all
  have c: "columns commaParser = []"
    by code_simp
  have e: "set_at [] 0 ''value'' = [Some ''value'']" "set_at [] 0 [] = [Some ([]::string)]"
    "set_at [Some ''h''] 1 ''value'' = [Some ''h'', Some ''value'']"
    "set_at [] 1 [] = [None, Some ([]::string)]"
    by code_simp+
  have a: "parseCSVRow commaParser (''value'' @ '','' @ [hash] @ ''comment'') 0 =
      Inr (commaParser\<lparr>columns := [[Some ''value''], [Some []]]\<rparr>)"
    using trailing_comment_after_delimiter [OF h, of "''comment''" 0] c e by simp
  have b: "parseCSVRow ?q (''value'' @ '','' @ [hash] @ ''comment'') 1 =
      Inr (commaParser\<lparr>columns := [[Some ''h'', Some ''value''], [None, Some []]]\<rparr>)"
    using trailing_comment_after_delimiter [OF hq h(4), of "''comment''" 1] e by simp
  have d: "columns (snd (parse sampleBuiltins commaParser
        (noOptions\<lparr>csv := Some (''h'' @ [CHR 0x0D, CHR 0x0A] @ ''value,#comment'')\<rparr>)))
       = [[Some ''h'', Some ''value''], [None, Some []]]"
    by code_simp
  from a b d show ?thesis by simp
qed

section \<open>The column window\<close>

text \<open>
  C8. The tokenizer takes the column window from the options of the constructor.
  A window in the options of \<^verbatim>\<open>parse\<close> changes nothing: \<^verbatim>\<open>parse\<close> returns what it
  returns without it, and with \<^verbatim>\<open>startColumn: 1, endColumn: 1\<close> given to \<^verbatim>\<open>parse\<close> the
  row \<^verbatim>\<open>x,y,z\<close> keeps its three columns. With the same window given to the
  constructor the row keeps the single field \<open>y\<close> of actual column 1, in output
  column 0, also when the delimiter is sniffed.
\<close>

theorem parse_time_window_not_used:
  "parse B p (opts\<lparr>startColumn := sc, endColumn := ec\<rparr>) = parse B p opts
   \<and> columns (snd (parse sampleBuiltins commaParser
        (noOptions\<lparr>csv := Some ''x,y,z'', startColumn := Some (Num 1), endColumn := Some (Num 1)\<rparr>)))
       = [[Some ''x''], [Some ''y''], [Some ''z'']]
   \<and> columns (snd (parse sampleBuiltins windowParser (noOptions\<lparr>csv := Some ''x,y,z''\<rparr>)))
       = [[Some ''y'']]
   \<and> (let r = snd (parse sampleBuiltins
                     (constructor sampleDefaults
                        (noOptions\<lparr>startColumn := Some (Num 1), endColumn := Some (Num 1)\<rparr>))
                     (noOptions\<lparr>csv := Some (''x;y;z'' @ [CHR 0x0D] @ ''1;2;3'')\<rparr>))
      in (guessedItemDelimiter r, columns r)) = (Some '';'', [[Some ''y'', Some ''2'']])"
proof (intro conjI)
  let ?po' = "merge (options p) (opts\<lparr>startColumn := sc, endColumn := ec\<rparr>)"
  let ?po = "merge (options p) opts"
  have f: "csv ?po' = csv ?po" "beforeParse ?po' = beforeParse ?po"
    "lineDelimiter ?po' = lineDelimiter ?po" "startRow ?po' = startRow ?po"
    "endRow ?po' = endRow ?po" "itemDelimiter ?po' = itemDelimiter ?po"
    "firstRowAsNames ?po' = firstRowAsNames ?po"
    by (simp_all add: merge_def)
  show "parse B p (opts\<lparr>startColumn := sc, endColumn := ec\<rparr>) = parse B p opts"
    unfolding parse_def tokenize_def runHook_def Let_def f by (rule refl)
  show "columns (snd (parse sampleBuiltins commaParser
        (noOptions\<lparr>csv := Some ''x,y,z'', startColumn := Some (Num 1), endColumn := Some (Num 1)\<rparr>)))
       = [[Some ''x''], [Some ''y''], [Some ''z'']]"
    by code_simp
  show "columns (snd (parse sampleBuiltins windowParser (noOptions\<lparr>csv := Some ''x,y,z''\<rparr>)))
       = [[Some ''y'']]"
    by code_simp
  show "(let r = snd (parse sampleBuiltins
                     (constructor sampleDefaults
                        (noOptions\<lparr>startColumn := Some (Num 1), endColumn := Some (Num 1)\<rparr>))
                     (noOptions\<lparr>csv := Some (''x;y;z'' @ [CHR 0x0D] @ ''1;2;3'')\<rparr>))
      in (guessedItemDelimiter r, columns r)) = (Some '';'', [[Some ''y'', Some ''2'']])"
    by code_simp
qed

section \<open>Failures\<close>

text \<open>
  C9. The tokenizer returns for every line, every row number and every parser state,
  and the sniffer returns a delimiter for every sequence of lines. The row loop of
  \<^verbatim>\<open>parse\<close> throws a \<open>TypeError\<close> exactly when the start row, after clamping, is at
  most the end row and is not an integer: then \<^verbatim>\<open>lines[rowIt]\<close> is \<open>undefined\<close> at
  the first row. With \<^verbatim>\<open>startRow: 0.5\<close> on the two lines \<open>a\<close> and \<open>b\<close> and no hook
  \<^verbatim>\<open>parse\<close> throws a \<open>TypeError\<close> and leaves the columns empty, where
  \<^verbatim>\<open>endRow: 0.5\<close> throws nothing and tokenizes the first line. A hook that throws
  aborts \<^verbatim>\<open>parse\<close> with what it threw, the columns empty; on the empty text the
  hook is not called.
\<close>

theorem fractional_start_row_raises:
  "(\<exists>p'. parseCSVRow p l r = Inr p')
   \<and> (fst (guessDelimiter B p ls) = '','' \<or> fst (guessDelimiter B p ls) = '';'')
   \<and> (fst (tokenize B po t p) = Some e \<longleftrightarrow>
        e = TypeError
        \<and> num_le (clampStartRow (startRow po))
             (clampEndRow (endRow po) (splitLines t (lineDelimiter po)))
        \<and> asIndex (clampStartRow (startRow po)) = None)
   \<and> (let r = parse sampleBuiltins commaParser
                 (noOptions\<lparr>csv := Some (''a'' @ [CHR 0x0A] @ ''b''),
                            startRow := Some (Finite (1 / 2))\<rparr>)
      in (fst r, columns (snd r))) = (Some TypeError, [])
   \<and> (let r = parse sampleBuiltins commaParser
                 (noOptions\<lparr>csv := Some (''a'' @ [CHR 0x0A] @ ''b''),
                            endRow := Some (Finite (1 / 2))\<rparr>)
      in (fst r, columns (snd r))) = (None, [[Some ''a'']])
   \<and> (let r = parse sampleBuiltins commaParser hookOptions
      in (fst r, columns (snd r))) = (Some (Thrown ''stop''), [])
   \<and> fst (parse sampleBuiltins commaParser (hookOptions\<lparr>csv := Some []\<rparr>)) = None"
proof (intro conjI)
  show "\<exists>p'. parseCSVRow p l r = Inr p'" by (rule parseCSVRow_ok)
  show "fst (guessDelimiter B p ls) = '','' \<or> fst (guessDelimiter B p ls) = '';''"
    by (rule guessDelimiter_result)
  show "fst (tokenize B po t p) = Some e \<longleftrightarrow>
        e = TypeError
        \<and> num_le (clampStartRow (startRow po))
             (clampEndRow (endRow po) (splitLines t (lineDelimiter po)))
        \<and> asIndex (clampStartRow (startRow po)) = None"
    by (rule tokenize_raises)
  show "(let r = parse sampleBuiltins commaParser
                 (noOptions\<lparr>csv := Some (''a'' @ [CHR 0x0A] @ ''b''),
                            startRow := Some (Finite (1 / 2))\<rparr>)
      in (fst r, columns (snd r))) = (Some TypeError, [])"
    by code_simp
  show "(let r = parse sampleBuiltins commaParser
                 (noOptions\<lparr>csv := Some (''a'' @ [CHR 0x0A] @ ''b''),
                            endRow := Some (Finite (1 / 2))\<rparr>)
      in (fst r, columns (snd r))) = (None, [[Some ''a'']])"
    by code_simp
  show "(let r = parse sampleBuiltins commaParser hookOptions
      in (fst r, columns (snd r))) = (Some (Thrown ''stop''), [])"
    by code_simp
  show "fst (parse sampleBuiltins commaParser (hookOptions\<lparr>csv := Some []\<rparr>)) = None"
    by code_simp
qed

section \<open>The sniffer's decisions\<close>

text \<open>
  C2. For every sequence of lines the dictionary of the sniffer ends with a counter
  for each of comma, semicolon and tab, and \<^verbatim>\<open>guessDelimiter\<close> returns \<open>;\<close> when the
  semicolon counter is strictly greater than the comma counter and \<open>,\<close> otherwise,
  that is when the comma counter is greater and on every tie. The result is never
  the tab, and no lines give \<open>,\<close>. The tab is counted as the comma and the
  semicolon are: when the first 14 lines hold no quote, the counter of each of the
  three characters is the number of its occurrences in these lines, before the
  first \<open>#\<close> of a line, that follow a text which is a date or is not a finite
  number.
\<close>

theorem guessDelimiter_decision:
  "(\<exists>nc ns nt.
       potDelimiters (sniffLines B lines 0 sniff0) (CHR '','') = Some nc
     \<and> potDelimiters (sniffLines B lines 0 sniff0) (CHR '';'') = Some ns
     \<and> potDelimiters (sniffLines B lines 0 sniff0) (CHR 0x09) = Some nt
     \<and> fst (guessDelimiter B p lines) = (if ns > nc then '';'' else '',''))
   \<and> fst (guessDelimiter B p lines) \<noteq> [CHR 0x09]
   \<and> fst (guessDelimiter B p []) = '',''
   \<and> (list_all (\<lambda>l. dquote \<notin> set l) (take 14 lines) \<and> candidate d \<longrightarrow>
        potDelimiters (sniffLines B lines 0 sniff0) d
          = Some (sum_list (map (counted B d) (take 14 lines))))"
proof -
  obtain nc ns nt where k:
    "potDelimiters (sniffLines B lines 0 sniff0) (CHR '','') = Some nc"
    "potDelimiters (sniffLines B lines 0 sniff0) (CHR '';'') = Some ns"
    "potDelimiters (sniffLines B lines 0 sniff0) (CHR 0x09) = Some nt"
    using potDelimiters_keys by blast
  have "fst (guessDelimiter B p lines) = (if ns > nc then '';'' else '','')"
    using k by (simp add: guessDelimiter_def Let_def pot_gt_def)
  moreover have "fst (guessDelimiter B p lines) \<noteq> [CHR 0x09]"
    by (simp add: guessDelimiter_def Let_def)
  moreover have "fst (guessDelimiter B p []) = '',''"
    by (simp add: guessDelimiter_def Let_def sniffLines_stop sniff0_def potDelimiters0_def pot_gt_def)
  moreover have "list_all (\<lambda>l. dquote \<notin> set l) (take 14 lines) \<and> candidate d \<longrightarrow>
        potDelimiters (sniffLines B lines 0 sniff0) d
          = Some (sum_list (map (counted B d) (take 14 lines)))"
    using potDelimiters_counted by blast
  ultimately show ?thesis using k by blast
qed

text \<open>Two tabs and one semicolon are counted and the semicolon is chosen; two tabs
  alone give the comma. After a closing quote and spaces the semicolon is counted
  too. A semicolon after the number \<open>1\<close>, blanks around it, is not counted; the one
  after \<open>x\<close> is.\<close>

theorem guessDelimiter_decision_witness:
  "potDelimiters (sniffLines sampleBuiltins [tabLine, ''x;y''] 0 sniff0) (CHR 0x09) = Some 2
   \<and> potDelimiters (sniffLines sampleBuiltins [tabLine, ''x;y''] 0 sniff0) (CHR '';'') = Some 1
   \<and> potDelimiters (sniffLines sampleBuiltins [tabLine, ''x;y''] 0 sniff0) (CHR '','') = Some 0
   \<and> fst (guessDelimiter sampleBuiltins plainParser [tabLine, ''x;y'']) = '';''
   \<and> fst (guessDelimiter sampleBuiltins plainParser [tabLine]) = '',''
   \<and> fst (guessDelimiter sampleBuiltins plainParser []) = '',''
   \<and> potDelimiters (sniffLines sampleBuiltins [dquote # ''a'' @ dquote # ''  ;b''] 0 sniff0) (CHR '';'')
       = Some 1
   \<and> potDelimiters (sniffLines oneBuiltins ['' 1 ;x;y''] 0 sniff0) (CHR '';'') = Some 1"
proof -
  let ?ls = "[tabLine, ''x;y'']"
  have nq: "list_all (\<lambda>l. dquote \<notin> set l) (take 14 ?ls)"
    by (simp add: tabLine_def)
  have cd: "candidate (CHR 0x09)" "candidate (CHR '';'')" "candidate (CHR '','')"
    by (simp_all add: candidate_def)
  have ct: "sum_list (map (counted sampleBuiltins (CHR 0x09)) (take 14 ?ls)) = 2"
    "sum_list (map (counted sampleBuiltins (CHR '';'')) (take 14 ?ls)) = 1"
    "sum_list (map (counted sampleBuiltins (CHR '','')) (take 14 ?ls)) = 0"
    by code_simp+
  have t: "potDelimiters (sniffLines sampleBuiltins ?ls 0 sniff0) (CHR 0x09) = Some 2"
    using guessDelimiter_decision [of sampleBuiltins ?ls plainParser "CHR 0x09"] nq cd(1) ct(1)
    by simp
  have s: "potDelimiters (sniffLines sampleBuiltins ?ls 0 sniff0) (CHR '';'') = Some 1"
    using guessDelimiter_decision [of sampleBuiltins ?ls plainParser "CHR '';''"] nq cd(2) ct(2)
    by simp
  have c: "potDelimiters (sniffLines sampleBuiltins ?ls 0 sniff0) (CHR '','') = Some 0"
    using guessDelimiter_decision [of sampleBuiltins ?ls plainParser "CHR '',''"] nq cd(3) ct(3)
    by simp
  have g: "fst (guessDelimiter sampleBuiltins plainParser ?ls) = '';''"
    using guessDelimiter_decision [of sampleBuiltins ?ls plainParser "CHR '',''"] s c
    by auto
  have r: "fst (guessDelimiter sampleBuiltins plainParser [tabLine]) = '',''"
    "potDelimiters (sniffLines sampleBuiltins [dquote # ''a'' @ dquote # ''  ;b''] 0 sniff0) (CHR '';'')
       = Some 1"
    by code_simp+
  have e: "fst (guessDelimiter sampleBuiltins plainParser []) = '',''"
    using guessDelimiter_decision [of sampleBuiltins "[]" plainParser "CHR '',''"] by simp
  have "list_all (\<lambda>l. dquote \<notin> set l) (take 14 ['' 1 ;x;y''])"
    and "sum_list (map (counted oneBuiltins (CHR '';'')) (take 14 ['' 1 ;x;y''])) = 1"
    by code_simp+
  then have n: "potDelimiters (sniffLines oneBuiltins ['' 1 ;x;y''] 0 sniff0) (CHR '';'') = Some 1"
    using guessDelimiter_decision [of oneBuiltins "['' 1 ;x;y'']" plainParser "CHR '';''"] cd(2)
    by simp
  from t s c g r e n show ?thesis by simp
qed

text \<open>
  C7. A parser built without a decimal point has the class default \<open>.\<close> in its
  options, whatever the defaults of the base class. For it the guard
  \<^verbatim>\<open>!decimalPoint\<close> fails, so the sniffer leaves the instance as it is, for all
  lines: on the text \<open>a,b\<close> the item delimiter is guessed and no decimal point, where
  zero periods against one comma ask for the guess \<open>,\<close>. Only a parser built with the
  empty decimal point gets the guess and the pattern, which holds the empty
  configured text; for it one period against one comma gives \<open>,\<close> and two periods
  against one comma give \<open>.\<close>. The global counters also miss a comma that follows a closing
  quote and spaces: write \<open>Q\<close> for the quote character; on the line \<open>Q a Q\<close>, a
  space, \<open>,b.c\<close> they end at one period and no comma, and the guess is \<open>.\<close> for a
  line that holds one period and one comma.
\<close>

theorem default_decimal_point_blocks_guess:
  "decimalPoint (options (constructor base noOptions)) = Some ''.''
   \<and> snd (guessDelimiter B (constructor base noOptions) lines) = constructor base noOptions
   \<and> (let r = snd (parse sampleBuiltins plainParser (noOptions\<lparr>csv := Some ''a,b''\<rparr>))
      in (guessedItemDelimiter r, guessedDecimalPoint r, decimalRegex r))
       = (Some '','', None, None)
   \<and> (let r = snd (parse sampleBuiltins noDecimalParser (noOptions\<lparr>csv := Some ''a,b''\<rparr>))
      in (guessedItemDelimiter r, guessedDecimalPoint r, decimalRegex r))
       = (Some '','', Some '','', Some ''^(-?[0-9]+)([0-9]+)$'')
   \<and> guessedDecimalPoint (snd (guessDelimiter sampleBuiltins noDecimalParser [''a.b,c'']))
       = Some '',''
   \<and> guessedDecimalPoint (snd (guessDelimiter sampleBuiltins noDecimalParser
        [''a.b;c.d'', ''e,f''])) = Some ''.''
   \<and> (let g = sniffLines sampleBuiltins [dquote # ''a'' @ dquote # '' ,b.c''] 0 sniff0
      in (points g, commas g)) = (1, 0)
   \<and> guessedDecimalPoint (snd (guessDelimiter sampleBuiltins noDecimalParser
        [dquote # ''a'' @ dquote # '' ,b.c''])) = Some ''.''"
proof (intro conjI)
  have n: "decimalPoint noOptions = None" by (simp add: noOptions_def)
  show d: "decimalPoint (options (constructor base noOptions)) = Some ''.''"
    using n by (rule constructor_decimalPoint)
  then have "truthy (decimalPoint (options (constructor base noOptions)))"
    by (simp add: truthy_def)
  then show "snd (guessDelimiter B (constructor base noOptions) lines) = constructor base noOptions"
    by (rule guessDelimiter_configured)
  show "(let r = snd (parse sampleBuiltins plainParser (noOptions\<lparr>csv := Some ''a,b''\<rparr>))
      in (guessedItemDelimiter r, guessedDecimalPoint r, decimalRegex r))
       = (Some '','', None, None)"
    by code_simp
  show "(let r = snd (parse sampleBuiltins noDecimalParser (noOptions\<lparr>csv := Some ''a,b''\<rparr>))
      in (guessedItemDelimiter r, guessedDecimalPoint r, decimalRegex r))
       = (Some '','', Some '','', Some ''^(-?[0-9]+)([0-9]+)$'')"
    by code_simp
  show "guessedDecimalPoint (snd (guessDelimiter sampleBuiltins noDecimalParser [''a.b,c'']))
       = Some '',''"
    by code_simp
  show "guessedDecimalPoint (snd (guessDelimiter sampleBuiltins noDecimalParser
        [''a.b;c.d'', ''e,f''])) = Some ''.''"
    by code_simp
  show "(let g = sniffLines sampleBuiltins [dquote # ''a'' @ dquote # '' ,b.c''] 0 sniff0
      in (points g, commas g)) = (1, 0)"
    by code_simp
  show "guessedDecimalPoint (snd (guessDelimiter sampleBuiltins noDecimalParser
        [dquote # ''a'' @ dquote # '' ,b.c''])) = Some ''.''"
    by code_simp
qed

section \<open>Comment lines and blank lines\<close>

text \<open>
  C10. Let line \<open>k\<close> lie in the row window. If its first character is \<open>#\<close>, the row
  loop gives the same result as on the text without that line: the rows after it
  move up by one and no row number is left out. If instead the line is skipped by the
  tokenizer (it is blank, or \<open>#\<close> is its first character after leading white space),
  the tokenizer leaves the parser as it is, the loop goes on with the same offset, and
  the row number of the line, its index minus the start row and the comment lines
  before it, stays unset in every column of the result.
\<close>

theorem comment_and_blank_lines:
  assumes "0 \<le> sRow" and "sRow \<le> k" and "k \<le> eRow" and "lineAt lines k = Some b"
  shows "(charAt b 0 = Some hash \<longrightarrow>
            parseRows lines sRow eRow sRow 0 p
              = parseRows (removeLine lines k) sRow (eRow - 1) sRow 0 p)
       \<and> (charAt b 0 \<noteq> Some hash \<and> (trim b = [] \<or> charAt (trim b) 0 = Some hash) \<longrightarrow>
            parseCSVRow p b r = Inr p
          \<and> (\<forall>offset q. parseRows lines sRow eRow k offset q
                           = parseRows lines sRow eRow (k + 1) offset q)
          \<and> (columns p = [] \<and> eRow < int (length lines) \<longrightarrow>
               (\<exists>p'. parseRows lines sRow eRow sRow 0 p = Inr p'
                  \<and> (\<forall>c. cellAt (columns p') c (k - sRow - commentsBetween lines sRow k) = None))))"
proof (intro conjI impI)
  assume "charAt b 0 = Some hash"
  then show "parseRows lines sRow eRow sRow 0 p
               = parseRows (removeLine lines k) sRow (eRow - 1) sRow 0 p"
    using assms by (intro parseRows_remove_comment)
next
  assume "charAt b 0 \<noteq> Some hash \<and> (trim b = [] \<or> charAt (trim b) 0 = Some hash)"
  then show "parseCSVRow p b r = Inr p"
    by (intro parseCSVRow_skipped) simp
next
  assume a: "charAt b 0 \<noteq> Some hash \<and> (trim b = [] \<or> charAt (trim b) 0 = Some hash)"
  show "\<forall>offset q. parseRows lines sRow eRow k offset q
                     = parseRows lines sRow eRow (k + 1) offset q"
  proof (intro allI)
    fix offset q
    have "parseCSVRow q b (k - sRow - offset) = Inr q"
      using a by (intro parseCSVRow_skipped) simp
    then show "parseRows lines sRow eRow k offset q = parseRows lines sRow eRow (k + 1) offset q"
      using parseRows_row [OF assms(3,4), of sRow offset q] a by simp
  qed
next
  assume a: "charAt b 0 \<noteq> Some hash \<and> (trim b = [] \<or> charAt (trim b) 0 = Some hash)"
    and f: "columns p = [] \<and> eRow < int (length lines)"
  obtain p' where run: "parseRows lines sRow eRow sRow 0 p = Inr p'"
    using parseRows_ok [OF assms(1), of eRow lines sRow 0 p] f by blast
  have rb: "rowsBelow (columns p) (sRow - sRow - 0)" using f by (simp add: rowsBelow_def)
  have "cellAt (columns p') c (k - sRow - 0 - commentsBetween lines sRow k) = None" for c
    using a by (intro parseRows_gap [OF run assms(2,3,4) _ _ _ rb]) simp_all
  with run show "\<exists>p'. parseRows lines sRow eRow sRow 0 p = Inr p'
      \<and> (\<forall>c. cellAt (columns p') c (k - sRow - commentsBetween lines sRow k) = None)"
    by simp
qed

theorem comment_and_blank_lines_witness:
  "parseRows sampleLines 0 4 0 0 commaParser = parseRows [''a'', ''b'', ''  '', ''d''] 0 3 0 0 commaParser
   \<and> map_sum id columns (parseRows sampleLines 0 4 0 0 commaParser)
       = Inr [[Some ''a'', Some ''b'', None, Some ''d'']]
   \<and> parseCSVRow commaParser ''  '' 2 = Inr commaParser
   \<and> (\<forall>c. cellAt [[Some ''a'', Some ''b'', None, Some ''d'']] c 2 = None)"
proof -
  have ev: "map_sum id columns (parseRows sampleLines 0 4 0 0 commaParser)
              = Inr [[Some ''a'', Some ''b'', None, Some ''d'']]"
    by code_simp
  have h1: "(0::int) \<le> 0" "(0::int) \<le> 1" "(1::int) \<le> 4" "lineAt sampleLines 1 = Some ''#c''"
    and c1: "charAt ''#c'' 0 = Some hash"
    and r1: "removeLine sampleLines 1 = [''a'', ''b'', ''  '', ''d'']"
    by code_simp+
  have h3: "(0::int) \<le> 3" "(3::int) \<le> 4" "lineAt sampleLines 3 = Some ''  ''"
    and c3: "charAt ''  '' 0 \<noteq> Some hash \<and> (trim ''  '' = [] \<or> charAt (trim ''  '') 0 = Some hash)"
    and f3: "columns commaParser = [] \<and> 4 < int (length sampleLines)"
    and n3: "3 - 0 - commentsBetween sampleLines 0 3 = 2"
    by code_simp+
  have a: "parseRows sampleLines 0 4 0 0 commaParser
             = parseRows [''a'', ''b'', ''  '', ''d''] 0 3 0 0 commaParser"
    using comment_and_blank_lines [OF h1(1,2,3,4), of commaParser 0] c1 r1 by simp
  have b: "parseCSVRow commaParser ''  '' 2 = Inr commaParser
       \<and> (\<exists>p'. parseRows sampleLines 0 4 0 0 commaParser = Inr p'
            \<and> (\<forall>c. cellAt (columns p') c 2 = None))"
    using comment_and_blank_lines [OF h1(1) h3, of commaParser 2] c3 f3 n3 by simp
  from a b ev show ?thesis by auto
qed

end
